theory Spec2Isabelle
  imports Main
begin

section \<open>The cache of the data manager (sunpy/data/data_manager/cache.py)\<close>

text \<open>
  The class \<open>Cache\<close> downloads remote files into a cache directory and records, through a
  storage provider, where each file went. The methods are embedded as functions that take
  the state of the outside world and return a result together with the new state. A raised
  exception is the \<open>Inl\<close> summand of the result; the state at the moment of the raise is
  returned with it, since what the call changed before it failed (files removed, entries
  deleted) stays changed.

  What the embedding leaves out: a \<open>pathlib.Path\<close> is the string it is made from, so
  \<open>Path(...)\<close> and \<open>str(...)\<close> are the identity; instants and durations are integers,
  where the source compares a \<open>timedelta\<close> with an astropy \<open>TimeDelta\<close>; the downloader
  writes to its destination path only; exceptions that are not subclasses of \<open>Exception\<close>
  (a keyboard interrupt) do not occur.
\<close>

subsection \<open>Data\<close>

type_synonym url = string
type_synonym path = string

text \<open>
  The record the cache hands to the storage provider (the dictionary literal of lines 83 to
  88, read back field by field in lines 74 to 78). The \<open>time\<close> field is an ISO string of
  \<open>datetime.now()\<close> in the source; here it is the instant itself, an integer number of
  clock ticks, and \<open>datetime.fromisoformat\<close> is the identity.
\<close>

record cache_entry =
  file_hash :: string
  file_path :: path
  url :: url
  time :: int

text \<open>The two column names the cache passes to the storage provider.\<close>

datatype key = Key_url | Key_file_hash

fun field :: "key \<Rightarrow> cache_entry \<Rightarrow> string" where
  "field Key_url d = url d"
| "field Key_file_hash d = file_hash d"

text \<open>
  Exceptions, by class. Only subclasses of \<open>Exception\<close> are modelled, so the handler
  \<open>except Exception\<close> of line 139 catches every value of this type that is raised
  inside its \<open>try\<close> block.
\<close>

datatype exn =
    URLError string
  | DownloaderError string
  | FileNotFoundError path
  | StorageError string
  | RuntimeError string
  | TypeError string

text \<open>
  Every call that leaves cache.py is recorded, in order, in the trace of the world: the three
  methods of the storage provider, \<open>urlopen\<close>, the downloader, \<open>hash_file\<close>
  and \<open>os.remove\<close>; and with them every warning that \<open>warnings.warn\<close> reports.
\<close>

datatype event =
    Find_by_key key string
  | Delete_by_key key string
  | Store cache_entry
  | Urlopen url
  | Downloader_download url path
  | Hash_file path
  | Os_remove path
  | Warn exn

text \<open>
  The outside world: the records held by the storage provider, the file system (a map from
  paths to contents), the clock read by \<open>datetime.now()\<close>, and the trace.
\<close>

record world =
  entries :: "cache_entry list"
  files :: "path \<Rightarrow> string option"
  clock :: int
  trace :: "event list"

text \<open>
  The \<open>Cache\<close> object (lines 35 to 39). \<open>downloader\<close> is the \<open>download(url, path)\<close>
  method of \<open>self._downloader\<close>: it may raise, and it may leave a content at the
  destination path, in any combination. The records of \<open>self._storage\<close> are part of the
  world; \<open>storage_fault\<close> says which calls of the storage provider raise, and what.
  \<open>expiry\<close> is \<open>None\<close> or a duration in clock ticks; a scalar \<open>TimeDelta\<close> is always
  true as a condition, so \<open>self._expiry and ...\<close> tests for \<open>None\<close> only.
\<close>

record cache =
  downloader :: "url \<Rightarrow> path \<Rightarrow> exn option \<times> string option"
  storage_fault :: "event \<Rightarrow> exn option"
  cache_dir :: path
  expiry :: "int option"

text \<open>
  The names cache.py imports from elsewhere, taken as parameters: \<open>urlopen\<close> (a response
  or a fault), \<open>get_filename\<close>, the \<open>/\<close> of \<open>pathlib\<close>, \<open>replacement_filename\<close> (which
  is given the desired path and the test "this path exists"), the digest \<open>hash_file\<close>
  computes from a content (which algorithm is left open: the docstring of
  \<open>get_by_hash\<close> speaks of SHA-1), the time one download attempt takes, and what
  \<open>warnings.warn\<close> raises, if anything, when it is handed an exception (this depends
  on the warning filters of the process).
\<close>

record env =
  urlopen :: "url \<Rightarrow> exn + string"
  get_filename :: "string \<Rightarrow> url \<Rightarrow> string"
  joinpath :: "path \<Rightarrow> string \<Rightarrow> path"
  replacement_filename :: "path \<Rightarrow> (path \<Rightarrow> bool) \<Rightarrow> path"
  digest :: "string \<Rightarrow> string"
  elapsed :: "url \<Rightarrow> nat"
  warn_fault :: "exn \<Rightarrow> exn option"

text \<open>The argument \<open>urls\<close> of \<open>download\<close> is a string or a list of strings.\<close>

datatype urls_arg = Str url | Lst "url list"

subsection \<open>The collaborators\<close>

definition log :: "event \<Rightarrow> world \<Rightarrow> world" where
  "log ev w = w\<lparr>trace := trace w @ [ev]\<rparr>"

text \<open>
  Modelled from the spec: the storage provider (sunpy/data/data_manager/storage.py is not
  among the sources). Section 6 of the specification: \<open>store\<close> inserts a new record,
  \<open>find_by_key\<close> is an exact-match lookup on a named field that returns the first
  matching record or nothing, \<open>delete_by_key\<close> removes the records that match; section 7:
  each of them may raise. A call that raises leaves the records as they were.
\<close>

definition find_by_key ::
  "cache \<Rightarrow> key \<Rightarrow> string \<Rightarrow> world \<Rightarrow> (exn + cache_entry option) \<times> world" where
  "find_by_key c k v w =
     (case storage_fault c (Find_by_key k v) of
        Some e \<Rightarrow> (Inl e, log (Find_by_key k v) w)
      | None \<Rightarrow> (Inr (find (\<lambda>d. field k d = v) (entries w)), log (Find_by_key k v) w))"

definition delete_by_key ::
  "cache \<Rightarrow> key \<Rightarrow> string \<Rightarrow> world \<Rightarrow> (exn + unit) \<times> world" where
  "delete_by_key c k v w =
     (case storage_fault c (Delete_by_key k v) of
        Some e \<Rightarrow> (Inl e, log (Delete_by_key k v) w)
      | None \<Rightarrow> (Inr (),
          log (Delete_by_key k v) (w\<lparr>entries := filter (\<lambda>d. field k d \<noteq> v) (entries w)\<rparr>)))"

definition store :: "cache \<Rightarrow> cache_entry \<Rightarrow> world \<Rightarrow> (exn + unit) \<times> world" where
  "store c d w =
     (case storage_fault c (Store d) of
        Some e \<Rightarrow> (Inl e, log (Store d) w)
      | None \<Rightarrow> (Inr (), log (Store d) (w\<lparr>entries := entries w @ [d]\<rparr>)))"

text \<open>
  Modelled from the spec: the file system helpers of section 6. \<open>os.remove\<close> deletes the
  file at a path and raises \<open>FileNotFoundError\<close> when there is none; \<open>hash_file\<close>
  (sunpy/util/util.py, not among the sources) returns the digest of the bytes of the file
  at a path, and raises when there is no file to open.
\<close>

definition os_remove :: "path \<Rightarrow> world \<Rightarrow> (exn + unit) \<times> world" where
  "os_remove p w =
     (case files w p of
        None \<Rightarrow> (Inl (FileNotFoundError p), log (Os_remove p) w)
      | Some b \<Rightarrow> (Inr (), log (Os_remove p) (w\<lparr>files := (files w)(p := None)\<rparr>)))"

definition hash_file :: "env \<Rightarrow> path \<Rightarrow> world \<Rightarrow> (exn + string) \<times> world" where
  "hash_file env p w =
     (case files w p of
        None \<Rightarrow> (Inl (FileNotFoundError p), log (Hash_file p) w)
      | Some b \<Rightarrow> (Inr (digest env b), log (Hash_file p) w))"

text \<open>
  \<open>warn(e, SunpyUserWarning)\<close>, line 140. The message handed to \<open>warnings.warn\<close>
  is the exception object \<open>e\<close>, not a string. When no filter looks at the message the
  warning is reported and the call returns. When a filter with a message pattern is
  consulted, matching the pattern against the object raises \<open>TypeError\<close>; under an
  \<open>error\<close> filter the warning itself is raised. A warning that is raised is not
  reported, and the trace does not hold it.
\<close>

definition warn :: "env \<Rightarrow> exn \<Rightarrow> world \<Rightarrow> (exn + unit) \<times> world" where
  "warn env e w =
     (case warn_fault env e of
        Some x \<Rightarrow> (Inl x, w)
      | None \<Rightarrow> (Inr (), log (Warn e) w))"

subsection \<open>The methods of Cache\<close>

text \<open>\<open>Cache._get_by_url\<close>, lines 103 to 113.\<close>

definition get_by_url :: "cache \<Rightarrow> url \<Rightarrow> world \<Rightarrow> (exn + cache_entry option) \<times> world" where
  "get_by_url c u w = find_by_key c Key_url u w"

text \<open>\<open>Cache.get_by_hash\<close>, lines 91 to 101.\<close>

definition get_by_hash ::
  "cache \<Rightarrow> string \<Rightarrow> world \<Rightarrow> (exn + cache_entry option) \<times> world" where
  "get_by_hash c sha_hash w = find_by_key c Key_file_hash sha_hash w"

text \<open>
  The loop of lines 67 to 71: \<open>details\<close> is the answer to the first URL for which
  \<open>_get_by_url\<close> returns a record, and \<open>None\<close> when the list runs out.
\<close>

fun lookup :: "cache \<Rightarrow> url list \<Rightarrow> world \<Rightarrow> (exn + cache_entry option) \<times> world" where
  "lookup c [] w = (Inr None, w)"
| "lookup c (u # us) w =
     (case get_by_url c u w of
        (Inl e, w1) \<Rightarrow> (Inl e, w1)
      | (Inr (Some details), w1) \<Rightarrow> (Inr (Some details), w1)
      | (Inr None, w1) \<Rightarrow> lookup c us w1)"

text \<open>The condition of lines 73 and 74.\<close>

definition expired :: "cache \<Rightarrow> cache_entry \<Rightarrow> world \<Rightarrow> bool" where
  "expired c details w =
     (case expiry c of None \<Rightarrow> False | Some d \<Rightarrow> clock w - time details > d)"

text \<open>
  The local function \<open>download(url)\<close> of \<open>_download_and_hash\<close>, lines 129 to 134. Any
  of \<open>urlopen\<close>, the downloader and \<open>hash_file\<close> may raise; the clock moves on by the time
  the attempt takes.
\<close>

definition download_url ::
  "cache \<Rightarrow> env \<Rightarrow> url \<Rightarrow> world \<Rightarrow> (exn + path \<times> string \<times> url) \<times> world" where
  "download_url c env u w =
     (let w1 = log (Urlopen u) (w\<lparr>clock := clock w + int (elapsed env u)\<rparr>) in
      case urlopen env u of
        Inl e \<Rightarrow> (Inl e, w1)
      | Inr sock \<Rightarrow>
          (let p = replacement_filename env
                     (joinpath env (cache_dir c) (get_filename env sock u))
                     (\<lambda>q. files w1 q \<noteq> None);
               w2 = log (Downloader_download u p) w1;
               w3 = (case snd (downloader c u p) of
                       None \<Rightarrow> w2
                     | Some b \<Rightarrow> w2\<lparr>files := (files w2)(p \<mapsto> b)\<rparr>)
           in case fst (downloader c u p) of
                Some e \<Rightarrow> (Inl e, w3)
              | None \<Rightarrow>
                  (case hash_file env p w3 of
                     (Inl e, w4) \<Rightarrow> (Inl e, w4)
                   | (Inr shahash, w4) \<Rightarrow> (Inr (p, shahash, u), w4))))"

text \<open>
  \<open>Cache._download_and_hash\<close>, the loop of lines 136 to 142. The call of \<open>warn\<close>
  stands in the \<open>except\<close> block, outside the \<open>try\<close>: what it raises leaves the
  loop and the method.
\<close>

fun download_and_hash ::
  "cache \<Rightarrow> env \<Rightarrow> url list \<Rightarrow> world \<Rightarrow> (exn + path \<times> string \<times> url) \<times> world" where
  "download_and_hash c env [] w = (Inl (RuntimeError ''Download failed''), w)"
| "download_and_hash c env (u # us) w =
     (case download_url c env u w of
        (Inr r, w1) \<Rightarrow> (Inr r, w1)
      | (Inl e, w1) \<Rightarrow>
          (case warn env e w1 of
             (Inl x, w2) \<Rightarrow> (Inl x, w2)
           | (Inr _, w2) \<Rightarrow> download_and_hash c env us w2))"

text \<open>
  Lines 80 to 89 of \<open>Cache.download\<close>, which every path that does not return or raise
  earlier runs through.
\<close>

definition download_fresh ::
  "cache \<Rightarrow> env \<Rightarrow> url list \<Rightarrow> bool \<Rightarrow> world \<Rightarrow> (exn + path) \<times> world" where
  "download_fresh c env urls redownload w =
     (case download_and_hash c env urls w of
        (Inl e, w1) \<Rightarrow> (Inl e, w1)
      | (Inr (p, h, u), w1) \<Rightarrow>
          if \<not> redownload then
            (case store c \<lparr>file_hash = h, file_path = p, url = u, time = clock w1\<rparr> w1 of
               (Inl e, w2) \<Rightarrow> (Inl e, w2)
             | (Inr _, w2) \<Rightarrow> (Inr p, w2))
          else (Inr p, w1))"

text \<open>
  The block under \<open>if not redownload\<close>, lines 67 to 78. It ends in one of three ways:
  it raises, it returns the path of the entry it found (\<open>Inr (Some p)\<close>), or control
  falls through to line 80 (\<open>Inr None\<close>), after an eviction when the entry had expired.
\<close>

definition check_cache ::
  "cache \<Rightarrow> url list \<Rightarrow> world \<Rightarrow> (exn + path option) \<times> world" where
  "check_cache c urls w =
     (case lookup c urls w of
        (Inl e, w1) \<Rightarrow> (Inl e, w1)
      | (Inr None, w1) \<Rightarrow> (Inr None, w1)
      | (Inr (Some details), w1) \<Rightarrow>
          if expired c details w1 then
            (case os_remove (file_path details) w1 of
               (Inl e, w2) \<Rightarrow> (Inl e, w2)
             | (Inr _, w2) \<Rightarrow>
                 (case delete_by_key c Key_url (url details) w2 of
                    (Inl e, w3) \<Rightarrow> (Inl e, w3)
                  | (Inr _, w3) \<Rightarrow> (Inr None, w3)))
          else (Inr (Some (file_path details)), w1))"

text \<open>\<open>Cache.download\<close>, lines 41 to 89.\<close>

definition download ::
  "cache \<Rightarrow> env \<Rightarrow> urls_arg \<Rightarrow> bool \<Rightarrow> world \<Rightarrow> (exn + path) \<times> world" where
  "download c env urls_in redownload w =
     (let urls = (case urls_in of Str s \<Rightarrow> [s] | Lst l \<Rightarrow> l) in
      if \<not> redownload then
        (case check_cache c urls w of
           (Inl e, w1) \<Rightarrow> (Inl e, w1)
         | (Inr (Some p), w1) \<Rightarrow> (Inr p, w1)
         | (Inr None, w1) \<Rightarrow> download_fresh c env urls redownload w1)
      else download_fresh c env urls redownload w)"

subsection \<open>Reading a trace\<close>

text \<open>
  The events a call added to the trace: those of the world after the call beyond those of
  the world before it.
\<close>

definition new_events :: "world \<Rightarrow> world \<Rightarrow> event list" where
  "new_events w w' = drop (length (trace w)) (trace w')"

text \<open>The URLs on which a download was attempted, in order, and the warnings issued.\<close>

definition attempted :: "event list \<Rightarrow> url list" where
  "attempted tr = concat (map (\<lambda>ev. case ev of Urlopen u \<Rightarrow> [u] | _ \<Rightarrow> []) tr)"

definition warned :: "event list \<Rightarrow> exn list" where
  "warned tr = concat (map (\<lambda>ev. case ev of Warn e \<Rightarrow> [e] | _ \<Rightarrow> []) tr)"

text \<open>The calls of the storage provider, and the calls that reach the network.\<close>

fun storage_call :: "event \<Rightarrow> bool" where
  "storage_call (Find_by_key k v) = True"
| "storage_call (Delete_by_key k v) = True"
| "storage_call (Store d) = True"
| "storage_call ev = False"

fun network_call :: "event \<Rightarrow> bool" where
  "network_call (Urlopen u) = True"
| "network_call (Downloader_download u p) = True"
| "network_call ev = False"

text \<open>
  The download attempts that delivered, in a call that returns a path:
  \<open>_download_and_hash\<close> goes on to the next mirror only after the warning for the
  failed one was reported, so these are the attempts not answered by a warning.
\<close>

definition completed :: "event list \<Rightarrow> nat" where
  "completed tr = length (attempted tr) - length (warned tr)"

subsection \<open>The lookup as the specification words it\<close>

text \<open>
  Section 4.1, step 1: "for each URL in order, query the Storage Provider for an entry
  keyed by that exact URL; take the first match found". \<open>first_match\<close> is that entry,
  \<open>queried\<close> the URLs asked about until it is found.
\<close>

fun first_match :: "url list \<Rightarrow> cache_entry list \<Rightarrow> cache_entry option" where
  "first_match [] es = None"
| "first_match (u # us) es =
     (case find (\<lambda>d. url d = u) es of Some d \<Rightarrow> Some d | None \<Rightarrow> first_match us es)"

fun queried :: "url list \<Rightarrow> cache_entry list \<Rightarrow> url list" where
  "queried [] es = []"
| "queried (u # us) es =
     (case find (\<lambda>d. url d = u) es of Some d \<Rightarrow> [u] | None \<Rightarrow> u # queried us es)"

subsection \<open>A concrete cache, for evaluation\<close>

text \<open>
  Three mirrors of one file: on the first \<open>urlopen\<close> raises, on the second the
  downloader raises, the third delivers. File names come from the response, and a name in
  use gets a suffix. No warning filter looks at messages, so every warning is reported.
  The cache keeps entries for ten ticks.
\<close>

definition mirrors_env :: env where
  "mirrors_env =
     \<lparr>urlopen = (\<lambda>u. if u = ''http://a/f'' then Inl (URLError ''unreachable'') else Inr ''f''),
      get_filename = (\<lambda>sock u. sock),
      joinpath = (\<lambda>d n. d @ ''/'' @ n),
      replacement_filename = (\<lambda>p ex. if ex p then p @ ''.0'' else p),
      digest = (\<lambda>b. ''sha-'' @ b),
      elapsed = (\<lambda>u. 1),
      warn_fault = (\<lambda>e. None)\<rparr>"

text \<open>
  The same mirrors in a process whose warning filters hold a message pattern, as they do
  once the modules cache.py imports are loaded.
\<close>

definition filtered_env :: env where
  "filtered_env =
     mirrors_env\<lparr>warn_fault :=
       (\<lambda>e. Some (TypeError ''expected string or bytes-like object''))\<rparr>"

definition mirrors_cache :: cache where
  "mirrors_cache =
     \<lparr>downloader = (\<lambda>u p. if u = ''http://b/f''
                             then (Some (DownloaderError ''refused''), None)
                             else (None, Some ''data'')),
      storage_fault = (\<lambda>ev. None),
      cache_dir = ''/cache'',
      expiry = Some 10\<rparr>"

text \<open>A storage provider whose \<open>delete_by_key\<close> raises.\<close>

definition locked_cache :: cache where
  "locked_cache =
     mirrors_cache\<lparr>storage_fault :=
       (\<lambda>ev. case ev of Delete_by_key k v \<Rightarrow> Some (StorageError ''locked'') | _ \<Rightarrow> None)\<rparr>"

text \<open>
  An empty cache directory with no records, and a cache that holds the file of the third
  mirror, downloaded at time 0, read at time \<open>t\<close>.
\<close>

definition cold_world :: world where
  "cold_world = \<lparr>entries = [], files = Map.empty, clock = 100, trace = []\<rparr>"

definition old_entry :: cache_entry where
  "old_entry = \<lparr>file_hash = ''sha-old'', file_path = ''/cache/f'', url = ''http://c/f'', time = 0\<rparr>"

definition warm_world :: "int \<Rightarrow> world" where
  "warm_world t =
     \<lparr>entries = [old_entry], files = [''/cache/f'' \<mapsto> ''old''], clock = t, trace = []\<rparr>"

text \<open>A record whose file is gone from the cache directory.\<close>

definition orphan_world :: world where
  "orphan_world = \<lparr>entries = [old_entry], files = Map.empty, clock = 5, trace = []\<rparr>"

section \<open>Properties\<close>

subsection \<open>Reading traces\<close>

lemma new_events_app: "trace w' = trace w @ t \<Longrightarrow> new_events w w' = t"
  by (simp add: new_events_def)

lemma log_simps [simp]:
  "entries (log ev w) = entries w" "files (log ev w) = files w"
  "clock (log ev w) = clock w" "trace (log ev w) = trace w @ [ev]"
  by (simp_all add: log_def)

lemma attempted_simps [simp]:
  "attempted [] = []" "attempted (a @ b) = attempted a @ attempted b"
  "attempted (Urlopen u # t) = u # attempted t"
  "attempted (Find_by_key k v # t) = attempted t"
  "attempted (Delete_by_key k v # t) = attempted t"
  "attempted (Store d # t) = attempted t"
  "attempted (Downloader_download u p # t) = attempted t"
  "attempted (Hash_file p # t) = attempted t"
  "attempted (Os_remove p # t) = attempted t"
  "attempted (Warn e # t) = attempted t"
  by (simp_all add: attempted_def)

lemma warned_simps [simp]:
  "warned [] = []" "warned (a @ b) = warned a @ warned b"
  "warned (Warn e # t) = e # warned t"
  "warned (Find_by_key k v # t) = warned t"
  "warned (Delete_by_key k v # t) = warned t"
  "warned (Store d # t) = warned t"
  "warned (Downloader_download u p # t) = warned t"
  "warned (Hash_file p # t) = warned t"
  "warned (Os_remove p # t) = warned t"
  "warned (Urlopen u # t) = warned t"
  by (simp_all add: warned_def)

lemma finds_silent [simp]:
  "attempted (map (Find_by_key k) us) = []" "warned (map (Find_by_key k) us) = []"
  "filter network_call (map (Find_by_key k) us) = []"
  by (induction us) simp_all

lemmas example_defs = mirrors_cache_def mirrors_env_def warm_world_def old_entry_def

lemmas method_defs = download_def check_cache_def download_fresh_def download_url_def
  get_by_url_def find_by_key_def delete_by_key_def store_def os_remove_def hash_file_def
  warn_def log_def expired_def Let_def new_events_def

subsection \<open>The lookup\<close>

lemma lookup_no_fault:
  "\<forall>u\<in>set urls. storage_fault c (Find_by_key Key_url u) = None \<Longrightarrow>
   lookup c urls w =
     (Inr (first_match urls (entries w)),
      w\<lparr>trace := trace w @ map (Find_by_key Key_url) (queried urls (entries w))\<rparr>)"
proof (induction urls arbitrary: w)
  case Nil
  then show ?case by simp
next
  case (Cons u us)
  then show ?case
    by (simp add: get_by_url_def find_by_key_def log_def split: option.splits)
qed

lemma lookup_frame:
  "lookup c urls w = (r, w1) \<Longrightarrow>
   \<exists>us. w1 = w\<lparr>trace := trace w @ map (Find_by_key Key_url) us\<rparr>"
proof (induction urls arbitrary: w)
  case Nil
  then have "w1 = w\<lparr>trace := trace w @ map (Find_by_key Key_url) []\<rparr>" by simp
  then show ?case by blast
next
  case (Cons u us)
  show ?case
  proof (cases "get_by_url c u w")
    case (Pair a w2)
    have w2: "w2 = log (Find_by_key Key_url u) w"
      using Pair by (auto simp: get_by_url_def find_by_key_def split: option.splits)
    show ?thesis
    proof (cases "a = Inr None")
      case True
      with Cons.prems Pair have "lookup c us w2 = (r, w1)" by simp
      from Cons.IH [OF this] obtain vs where
        "w1 = w2\<lparr>trace := trace w2 @ map (Find_by_key Key_url) vs\<rparr>" by blast
      then have "w1 = w\<lparr>trace := trace w @ map (Find_by_key Key_url) (u # vs)\<rparr>"
        by (simp add: w2 log_def)
      then show ?thesis by blast
    next
      case False
      with Cons.prems Pair have "w1 = w2"
        by (auto split: sum.splits option.splits)
      then have "w1 = w\<lparr>trace := trace w @ map (Find_by_key Key_url) [u]\<rparr>"
        by (simp add: w2 log_def)
      then show ?thesis by blast
    qed
  qed
qed

lemma lookup_Some:
  "lookup c urls w = (Inr (Some d), w1) \<Longrightarrow> d \<in> set (entries w) \<and> url d \<in> set urls"
proof (induction urls arbitrary: w)
  case Nil
  then show ?case by simp
next
  case (Cons u us)
  show ?case
  proof (cases "get_by_url c u w")
    case (Pair a w2)
    have w2: "entries w2 = entries w"
      using Pair by (auto simp: get_by_url_def find_by_key_def split: option.splits)
    show ?thesis
    proof (cases "a = Inr None")
      case True
      with Cons.prems Pair have "lookup c us w2 = (Inr (Some d), w1)" by simp
      from Cons.IH [OF this] show ?thesis by (simp add: w2)
    next
      case False
      with Cons.prems Pair have "a = Inr (Some d)"
        by (auto split: sum.splits option.splits)
      with Pair have "find (\<lambda>x. url x = u) (entries w) = Some d"
        by (auto simp: get_by_url_def find_by_key_def split: option.splits)
      then show ?thesis by (auto simp: find_Some_iff)
    qed
  qed
qed

lemma first_match_queried:
  "first_match urls es = Some d \<Longrightarrow>
   \<exists>pre post. urls = pre @ url d # post \<and> queried urls es = pre @ [url d] \<and>
     (\<forall>u\<in>set pre. \<forall>e\<in>set es. url e \<noteq> u) \<and>
     find (\<lambda>e. url e = url d) es = Some d"
proof (induction urls)
  case Nil
  then show ?case by simp
next
  case (Cons u us)
  show ?case
  proof (cases "find (\<lambda>e. url e = u) es")
    case None
    with Cons.prems have "first_match us es = Some d" by simp
    from Cons.IH [OF this] obtain pre post where
      pp: "us = pre @ url d # post" "queried us es = pre @ [url d]"
        "\<forall>u\<in>set pre. \<forall>e\<in>set es. url e \<noteq> u" "find (\<lambda>e. url e = url d) es = Some d"
      by blast
    from None have nou: "\<forall>e\<in>set es. url e \<noteq> u" by (simp add: find_None_iff)
    have "u # us = (u # pre) @ url d # post \<and> queried (u # us) es = (u # pre) @ [url d] \<and>
      (\<forall>v\<in>set (u # pre). \<forall>e\<in>set es. url e \<noteq> v) \<and> find (\<lambda>e. url e = url d) es = Some d"
      using pp None nou by simp
    then show ?thesis by blast
  next
    case (Some e)
    with Cons.prems have de: "e = d" by simp
    from Some have ud: "url e = u" by (auto simp: find_Some_iff)
    have "u # us = [] @ url d # us \<and> queried (u # us) es = [] @ [url d] \<and>
      (\<forall>v\<in>set []. \<forall>e\<in>set es. url e \<noteq> v) \<and> find (\<lambda>e. url e = url d) es = Some d"
      using Some de ud by simp
    then show ?thesis by blast
  qed
qed


subsection \<open>One attempt, the loop over the mirrors, and lines 80 to 89\<close>

lemma download_url_effect:
  assumes "download_url c env u w = (r, w')"
  shows "\<exists>t. trace w' = trace w @ Urlopen u # t \<and> attempted t = [] \<and> warned t = [] \<and>
        (\<forall>ev\<in>set t. \<not> storage_call ev) \<and>
        entries w' = entries w \<and> clock w' = clock w + int (elapsed env u) \<and>
        (\<forall>q. files w' q \<noteq> files w q \<longrightarrow> Downloader_download u q \<in> set t) \<and>
        (\<forall>p h v. r = Inr (p, h, v) \<longrightarrow>
           v = u \<and> Hash_file p \<in> set t \<and> (\<exists>b. files w' p = Some b \<and> h = digest env b))"
  using assms
  by (auto simp: download_url_def Let_def hash_file_def log_def
      split: sum.splits option.splits if_splits)

lemma download_and_hash_effect:
  "download_and_hash c env urls w = (r, w') \<Longrightarrow>
   \<exists>t. trace w' = trace w @ t \<and> (\<forall>ev\<in>set t. \<not> storage_call ev) \<and>
     entries w' = entries w \<and> clock w \<le> clock w' \<and>
     (\<forall>q. files w' q \<noteq> files w q \<longrightarrow> (\<exists>u. Downloader_download u q \<in> set t)) \<and>
     (\<forall>p h u. r = Inr (p, h, u) \<longrightarrow>
        (\<exists>pre post. urls = pre @ u # post \<and> attempted t = pre @ [u] \<and>
           length (warned t) = length pre) \<and>
        Hash_file p \<in> set t \<and> (\<exists>b. files w' p = Some b \<and> h = digest env b)) \<and>
     (\<forall>e. r = Inl e \<longrightarrow>
        (e = RuntimeError ''Download failed'' \<and> attempted t = urls \<and>
         length (warned t) = length urls) \<or>
        (\<exists>pre u post x. urls = pre @ u # post \<and> attempted t = pre @ [u] \<and>
           length (warned t) = length pre \<and> warn_fault env x = Some e))"
proof (induction urls arbitrary: w)
  case Nil
  then show ?case by auto
next
  case (Cons u us)
  obtain r1 w1 where one: "download_url c env u w = (r1, w1)"
    by (cases "download_url c env u w")
  from download_url_effect [OF one] obtain t1 where
    t1: "trace w1 = trace w @ Urlopen u # t1" "attempted t1 = []" "warned t1 = []"
      "\<forall>ev\<in>set t1. \<not> storage_call ev" "entries w1 = entries w"
      "clock w1 = clock w + int (elapsed env u)"
      "\<forall>q. files w1 q \<noteq> files w q \<longrightarrow> Downloader_download u q \<in> set t1"
      "\<forall>p h v. r1 = Inr (p, h, v) \<longrightarrow>
           v = u \<and> Hash_file p \<in> set t1 \<and> (\<exists>b. files w1 p = Some b \<and> h = digest env b)"
    by blast
  show ?case
  proof (cases r1)
    case (Inr x)
    with Cons.prems one have rw: "r = Inr x" "w' = w1" by simp_all
    obtain p h v where x: "x = (p, h, v)" by (cases x)
    from t1(8) Inr x have v: "v = u" "Hash_file p \<in> set t1"
      "\<exists>b. files w1 p = Some b \<and> h = digest env b" by auto
    have "u # us = [] @ u # us \<and> attempted (Urlopen u # t1) = [] @ [u] \<and>
        length (warned (Urlopen u # t1)) = length ([]::url list)"
      using t1 by simp
    then have split: "\<exists>pre post. u # us = pre @ u # post \<and>
        attempted (Urlopen u # t1) = pre @ [u] \<and>
        length (warned (Urlopen u # t1)) = length pre" by blast
    let ?t = "Urlopen u # t1"
    have "trace w' = trace w @ ?t" using t1 rw by simp
    moreover have "\<forall>ev\<in>set ?t. \<not> storage_call ev" using t1 by simp
    moreover have "entries w' = entries w" using t1 rw by simp
    moreover have "clock w \<le> clock w'" using t1 rw by simp
    moreover have "\<forall>q. files w' q \<noteq> files w q \<longrightarrow> (\<exists>u. Downloader_download u q \<in> set ?t)"
      using t1 rw by auto
    moreover have "\<forall>p' h' u'. r = Inr (p', h', u') \<longrightarrow>
        (\<exists>pre post. u # us = pre @ u' # post \<and> attempted ?t = pre @ [u'] \<and>
           length (warned ?t) = length pre) \<and>
        Hash_file p' \<in> set ?t \<and> (\<exists>b. files w' p' = Some b \<and> h' = digest env b)"
      using split v rw x by auto
    moreover have "\<forall>e. r = Inl e \<longrightarrow>
        (e = RuntimeError ''Download failed'' \<and> attempted ?t = u # us \<and>
         length (warned ?t) = length (u # us)) \<or>
        (\<exists>pre v post x. u # us = pre @ v # post \<and> attempted ?t = pre @ [v] \<and>
           length (warned ?t) = length pre \<and> warn_fault env x = Some e)"
      using rw by simp
    ultimately show ?thesis by blast
  next
    case (Inl e1)
    show ?thesis
    proof (cases "warn_fault env e1")
      case (Some x)
      with Cons.prems one Inl have rw: "r = Inl x" "w' = w1" by (simp_all add: warn_def)
      let ?t = "Urlopen u # t1"
      have "u # us = [] @ u # us \<and> attempted ?t = [] @ [u] \<and>
          length (warned ?t) = length ([]::url list) \<and> warn_fault env e1 = Some x"
        using t1 Some by simp
      then have stop: "\<exists>pre v post y. u # us = pre @ v # post \<and> attempted ?t = pre @ [v] \<and>
          length (warned ?t) = length pre \<and> warn_fault env y = Some x"
        by blast
      have "trace w' = trace w @ ?t" using t1 rw by simp
      moreover have "\<forall>ev\<in>set ?t. \<not> storage_call ev" using t1 by simp
      moreover have "entries w' = entries w" using t1 rw by simp
      moreover have "clock w \<le> clock w'" using t1 rw by simp
      moreover have "\<forall>q. files w' q \<noteq> files w q \<longrightarrow> (\<exists>u. Downloader_download u q \<in> set ?t)"
        using t1 rw by auto
      moreover have "\<forall>p' h' u'. r = Inr (p', h', u') \<longrightarrow>
          (\<exists>pre post. u # us = pre @ u' # post \<and> attempted ?t = pre @ [u'] \<and>
             length (warned ?t) = length pre) \<and>
          Hash_file p' \<in> set ?t \<and> (\<exists>b. files w' p' = Some b \<and> h' = digest env b)"
        using rw by simp
      moreover have "\<forall>e. r = Inl e \<longrightarrow>
          (e = RuntimeError ''Download failed'' \<and> attempted ?t = u # us \<and>
           length (warned ?t) = length (u # us)) \<or>
          (\<exists>pre v post y. u # us = pre @ v # post \<and> attempted ?t = pre @ [v] \<and>
             length (warned ?t) = length pre \<and> warn_fault env y = Some e)"
        using stop rw by simp
      ultimately show ?thesis by blast
    next
      case None
      let ?w2 = "log (Warn e1) w1"
      from None Cons.prems one Inl
      have rest: "download_and_hash c env us ?w2 = (r, w')"
        by (simp add: warn_def)
      from Cons.IH [OF rest] obtain t2 where
        t2: "trace w' = trace ?w2 @ t2" "\<forall>ev\<in>set t2. \<not> storage_call ev"
          "entries w' = entries ?w2" "clock ?w2 \<le> clock w'"
          "\<forall>q. files w' q \<noteq> files ?w2 q \<longrightarrow> (\<exists>u. Downloader_download u q \<in> set t2)"
          "\<forall>p h u. r = Inr (p, h, u) \<longrightarrow>
            (\<exists>pre post. us = pre @ u # post \<and> attempted t2 = pre @ [u] \<and>
               length (warned t2) = length pre) \<and>
            Hash_file p \<in> set t2 \<and> (\<exists>b. files w' p = Some b \<and> h = digest env b)"
          "\<forall>e. r = Inl e \<longrightarrow>
            (e = RuntimeError ''Download failed'' \<and> attempted t2 = us \<and>
             length (warned t2) = length us) \<or>
            (\<exists>pre v post y. us = pre @ v # post \<and> attempted t2 = pre @ [v] \<and>
               length (warned t2) = length pre \<and> warn_fault env y = Some e)"
        by blast
      let ?t = "Urlopen u # t1 @ Warn e1 # t2"
      have "trace w' = trace w @ ?t" using t1 t2 by simp
      moreover have "\<forall>ev\<in>set ?t. \<not> storage_call ev" using t1 t2 by auto
      moreover have "entries w' = entries w" using t1 t2 by simp
      moreover have "clock w \<le> clock w'" using t1 t2 by simp
      moreover have "\<forall>q. files w' q \<noteq> files w q \<longrightarrow> (\<exists>u. Downloader_download u q \<in> set ?t)"
      proof (intro allI impI)
        fix q assume "files w' q \<noteq> files w q"
        then have "files w' q \<noteq> files w1 q \<or> files w1 q \<noteq> files w q" by auto
        then show "\<exists>u. Downloader_download u q \<in> set ?t"
          using t1(7) t2(5) by auto
      qed
      moreover have "\<forall>p' h' u'. r = Inr (p', h', u') \<longrightarrow>
          (\<exists>pre post. u # us = pre @ u' # post \<and> attempted ?t = pre @ [u'] \<and>
             length (warned ?t) = length pre) \<and>
          Hash_file p' \<in> set ?t \<and> (\<exists>b. files w' p' = Some b \<and> h' = digest env b)"
      proof (intro allI impI)
        fix p' h' u' assume r: "r = Inr (p', h', u')"
        with t2(6) obtain pre post where
          pp: "us = pre @ u' # post" "attempted t2 = pre @ [u']"
            "length (warned t2) = length pre"
          and hf: "Hash_file p' \<in> set t2" "\<exists>b. files w' p' = Some b \<and> h' = digest env b"
          by blast
        have "u # us = (u # pre) @ u' # post \<and> attempted ?t = (u # pre) @ [u'] \<and>
             length (warned ?t) = length (u # pre)"
          using pp t1 by simp
        then have "\<exists>pre post. u # us = pre @ u' # post \<and> attempted ?t = pre @ [u'] \<and>
             length (warned ?t) = length pre" by blast
        with hf show "(\<exists>pre post. u # us = pre @ u' # post \<and> attempted ?t = pre @ [u'] \<and>
             length (warned ?t) = length pre) \<and>
          Hash_file p' \<in> set ?t \<and> (\<exists>b. files w' p' = Some b \<and> h' = digest env b)"
          by simp
      qed
      moreover have "\<forall>e. r = Inl e \<longrightarrow>
          (e = RuntimeError ''Download failed'' \<and> attempted ?t = u # us \<and>
           length (warned ?t) = length (u # us)) \<or>
          (\<exists>pre v post y. u # us = pre @ v # post \<and> attempted ?t = pre @ [v] \<and>
             length (warned ?t) = length pre \<and> warn_fault env y = Some e)"
      proof (intro allI impI)
        fix e assume "r = Inl e"
        with t2(7) consider
          (all) "e = RuntimeError ''Download failed''" "attempted t2 = us"
            "length (warned t2) = length us"
          | (stop) pre v post y where "us = pre @ v # post" "attempted t2 = pre @ [v]"
            "length (warned t2) = length pre" "warn_fault env y = Some e"
          by blast
        then show "(e = RuntimeError ''Download failed'' \<and> attempted ?t = u # us \<and>
           length (warned ?t) = length (u # us)) \<or>
          (\<exists>pre v post y. u # us = pre @ v # post \<and> attempted ?t = pre @ [v] \<and>
             length (warned ?t) = length pre \<and> warn_fault env y = Some e)"
        proof cases
          case all
          then show ?thesis using t1 by simp
        next
          case stop
          then have "u # us = (u # pre) @ v # post \<and> attempted ?t = (u # pre) @ [v] \<and>
             length (warned ?t) = length (u # pre) \<and> warn_fault env y = Some e"
            using t1 by simp
          then have "\<exists>pre v post y. u # us = pre @ v # post \<and> attempted ?t = pre @ [v] \<and>
             length (warned ?t) = length pre \<and> warn_fault env y = Some e"
            by blast
          then show ?thesis ..
        qed
      qed
      ultimately show ?thesis by blast
    qed
  qed
qed

lemma download_fresh_effect:
  assumes "download_fresh c env urls rd w = (r, w')"
  shows "\<exists>t. trace w' = trace w @ t \<and>
     (attempted t = urls \<and> length (warned t) = length urls \<longrightarrow>
        r = Inl (RuntimeError ''Download failed'') \<and> entries w' = entries w \<and>
        (\<forall>d. Store d \<notin> set t)) \<and>
     (\<forall>p. r = Inr p \<longrightarrow> (\<exists>pre u post b. urls = pre @ u # post \<and> attempted t = pre @ [u] \<and>
           length (warned t) = length pre \<and> Hash_file p \<in> set t \<and>
           files w' p = Some b \<and>
           (\<not> rd \<longrightarrow> entries w' = entries w @ [\<lparr>file_hash = digest env b, file_path = p, url = u, time = clock w'\<rparr>] \<and>
              Store \<lparr>file_hash = digest env b, file_path = p, url = u, time = clock w'\<rparr> \<in> set t))) \<and>
     (rd \<longrightarrow> entries w' = entries w \<and> (\<forall>ev\<in>set t. \<not> storage_call ev)) \<and>
     (\<forall>q. files w' q \<noteq> files w q \<longrightarrow> (\<exists>u. Downloader_download u q \<in> set t)) \<and>
     (urls \<noteq> [] \<longrightarrow> attempted t \<noteq> [] \<and> hd (attempted t) = hd urls)"
proof -
  obtain r1 w1 where dh: "download_and_hash c env urls w = (r1, w1)"
    by (cases "download_and_hash c env urls w")
  from download_and_hash_effect [OF dh] obtain t1 where
    t1: "trace w1 = trace w @ t1" "\<forall>ev\<in>set t1. \<not> storage_call ev"
      "entries w1 = entries w"
      "\<forall>q. files w1 q \<noteq> files w q \<longrightarrow> (\<exists>u. Downloader_download u q \<in> set t1)"
      "\<forall>p h u. r1 = Inr (p, h, u) \<longrightarrow>
        (\<exists>pre post. urls = pre @ u # post \<and> attempted t1 = pre @ [u] \<and>
           length (warned t1) = length pre) \<and>
        Hash_file p \<in> set t1 \<and> (\<exists>b. files w1 p = Some b \<and> h = digest env b)"
      "\<forall>e. r1 = Inl e \<longrightarrow>
        (e = RuntimeError ''Download failed'' \<and> attempted t1 = urls \<and>
         length (warned t1) = length urls) \<or>
        (\<exists>pre u post x. urls = pre @ u # post \<and> attempted t1 = pre @ [u] \<and>
           length (warned t1) = length pre \<and> warn_fault env x = Some e)"
    by blast
  have nostore: "\<forall>d. Store d \<notin> set t1" using t1(2) by force
  show ?thesis
  proof (cases r1)
    case (Inl e)
    with assms dh have rw: "r = Inl e" "w' = w1" by (simp_all add: download_fresh_def)
    from t1(6) Inl have alt:
      "(e = RuntimeError ''Download failed'' \<and> attempted t1 = urls \<and>
         length (warned t1) = length urls) \<or>
       (\<exists>pre u post. urls = pre @ u # post \<and> attempted t1 = pre @ [u] \<and>
           length (warned t1) = length pre)"
      by blast
    have exh: "attempted t1 = urls \<and> length (warned t1) = length urls \<longrightarrow>
        e = RuntimeError ''Download failed''"
      using alt by auto
    have hd: "urls \<noteq> [] \<longrightarrow> attempted t1 \<noteq> [] \<and> hd (attempted t1) = hd urls"
    proof -
      from alt consider
        (all) "attempted t1 = urls"
        | (stop) pre u post where "urls = pre @ u # post" "attempted t1 = pre @ [u]"
        by blast
      then show ?thesis
      proof cases
        case all
        then show ?thesis by simp
      next
        case stop
        then show ?thesis by (cases pre) simp_all
      qed
    qed
    show ?thesis
      using rw exh t1(1-4) nostore hd by (intro exI [of _ t1]) auto
  next
    case (Inr x)
    obtain p h u where x: "x = (p, h, u)" by (cases x)
    from t1(5) Inr x obtain pre post b where
      pp: "urls = pre @ u # post" "attempted t1 = pre @ [u]" "length (warned t1) = length pre"
      and hf: "Hash_file p \<in> set t1" "files w1 p = Some b" "h = digest env b"
      by auto
    have hd: "urls \<noteq> [] \<longrightarrow> attempted t1 \<noteq> [] \<and> hd (attempted t1) = hd urls"
      using pp by (cases pre) simp_all
    show ?thesis
    proof (cases rd)
      case True
      with assms dh Inr x have rw: "r = Inr p" "w' = w1"
        by (simp_all add: download_fresh_def)
      have notall: "\<not> (attempted t1 = urls \<and> length (warned t1) = length urls)"
        using pp by auto
      have "urls = pre @ u # post \<and> attempted t1 = pre @ [u] \<and>
           length (warned t1) = length pre \<and> Hash_file p \<in> set t1 \<and>
           files w' p = Some b \<and>
           (\<not> rd \<longrightarrow> entries w' = entries w @ [\<lparr>file_hash = digest env b, file_path = p, url = u, time = clock w'\<rparr>] \<and>
              Store \<lparr>file_hash = digest env b, file_path = p, url = u, time = clock w'\<rparr> \<in> set t1)"
        using pp hf rw True by simp
      then have "(\<exists>pre u post b. urls = pre @ u # post \<and> attempted t1 = pre @ [u] \<and>
           length (warned t1) = length pre \<and> Hash_file p \<in> set t1 \<and>
           files w' p = Some b \<and>
           (\<not> rd \<longrightarrow> entries w' = entries w @ [\<lparr>file_hash = digest env b, file_path = p, url = u, time = clock w'\<rparr>] \<and>
              Store \<lparr>file_hash = digest env b, file_path = p, url = u, time = clock w'\<rparr> \<in> set t1))"
        by (intro exI)
      then have succ: "\<forall>q. r = Inr q \<longrightarrow> (\<exists>pre u post b. urls = pre @ u # post \<and> attempted t1 = pre @ [u] \<and>
           length (warned t1) = length pre \<and> Hash_file q \<in> set t1 \<and>
           files w' q = Some b \<and>
           (\<not> rd \<longrightarrow> entries w' = entries w @ [\<lparr>file_hash = digest env b, file_path = q, url = u, time = clock w'\<rparr>] \<and>
              Store \<lparr>file_hash = digest env b, file_path = q, url = u, time = clock w'\<rparr> \<in> set t1))"
        using rw by simp
      show ?thesis
        using rw(2) True notall t1(1-4) succ hd by (intro exI [of _ t1]) blast
    next
      case False
      let ?d = "\<lparr>file_hash = h, file_path = p, url = u, time = clock w1\<rparr>"
      let ?t = "t1 @ [Store ?d]"
      have tr: "trace w' = trace w @ ?t"
        using assms dh Inr x False t1(1)
        by (auto simp: download_fresh_def store_def split: option.splits)
      have fl: "files w' = files w1" "clock w' = clock w1"
        using assms dh Inr x False
        by (auto simp: download_fresh_def store_def split: option.splits)
      have att: "attempted ?t = pre @ [u]" "length (warned ?t) = length pre"
        using pp by simp_all
      have ok: "\<forall>q. r = Inr q \<longrightarrow> q = p \<and> entries w' = entries w @ [?d]"
        using assms dh Inr x False t1(3)
        by (auto simp: download_fresh_def store_def split: option.splits)
      have hd': "urls \<noteq> [] \<longrightarrow> attempted ?t \<noteq> [] \<and> hd (attempted ?t) = hd urls"
        using hd by simp
      have notall': "\<not> (attempted ?t = urls \<and> length (warned ?t) = length urls)"
        using pp att by auto
      have succ: "\<forall>q. r = Inr q \<longrightarrow> (\<exists>pre u post b. urls = pre @ u # post \<and> attempted ?t = pre @ [u] \<and>
           length (warned ?t) = length pre \<and> Hash_file q \<in> set ?t \<and>
           files w' q = Some b \<and>
           (\<not> rd \<longrightarrow> entries w' = entries w @ [\<lparr>file_hash = digest env b, file_path = q, url = u, time = clock w'\<rparr>] \<and>
              Store \<lparr>file_hash = digest env b, file_path = q, url = u, time = clock w'\<rparr> \<in> set ?t))"
      proof (intro allI impI)
        fix q assume "r = Inr q"
        with ok have q: "q = p" "entries w' = entries w @ [?d]" by simp_all
        have "urls = pre @ u # post \<and> attempted ?t = pre @ [u] \<and>
           length (warned ?t) = length pre \<and> Hash_file q \<in> set ?t \<and>
           files w' q = Some b \<and>
           (\<not> rd \<longrightarrow> entries w' = entries w @ [\<lparr>file_hash = digest env b, file_path = q, url = u, time = clock w'\<rparr>] \<and>
              Store \<lparr>file_hash = digest env b, file_path = q, url = u, time = clock w'\<rparr> \<in> set ?t)"
          using pp att q hf fl by simp
        then show "(\<exists>pre u post b. urls = pre @ u # post \<and> attempted ?t = pre @ [u] \<and>
           length (warned ?t) = length pre \<and> Hash_file q \<in> set ?t \<and>
           files w' q = Some b \<and>
           (\<not> rd \<longrightarrow> entries w' = entries w @ [\<lparr>file_hash = digest env b, file_path = q, url = u, time = clock w'\<rparr>] \<and>
              Store \<lparr>file_hash = digest env b, file_path = q, url = u, time = clock w'\<rparr> \<in> set ?t))"
          by (intro exI)
      qed
      have fls: "\<forall>q. files w' q \<noteq> files w q \<longrightarrow> (\<exists>u. Downloader_download u q \<in> set ?t)"
        using t1(4) fl by auto
      show ?thesis
        using tr notall' succ False fls hd' by (intro exI [of _ ?t]) blast
    qed
  qed
qed

subsection \<open>The cache check and the whole call\<close>

lemma check_cache_effect:
  assumes "check_cache c urls w = (r, w1)"
  shows "\<exists>t. trace w1 = trace w @ t \<and> attempted t = [] \<and> warned t = [] \<and>
           (\<forall>d. Store d \<notin> set t) \<and> set (entries w1) \<subseteq> set (entries w) \<and>
           clock w1 = clock w \<and> (\<forall>e. r = Inl e \<longrightarrow> urls \<noteq> []) \<and>
           (\<forall>p. r = Inr (Some p) \<longrightarrow>
              files w1 = files w \<and> entries w1 = entries w \<and>
              (\<forall>ev\<in>set t. \<exists>u. ev = Find_by_key Key_url u) \<and>
              (\<exists>d\<in>set (entries w). url d \<in> set urls \<and> \<not> expired c d w \<and> p = file_path d))"
proof -
  obtain a w0 where lk: "lookup c urls w = (a, w0)" by (cases "lookup c urls w")
  from lookup_frame [OF lk] obtain us where
    w0: "w0 = w\<lparr>trace := trace w @ map (Find_by_key Key_url) us\<rparr>" by blast
  have att: "attempted (map (Find_by_key Key_url) us) = []"
    by (induction us) simp_all
  have wrn: "warned (map (Find_by_key Key_url) us) = []"
    by (induction us) simp_all
  show ?thesis
  proof (cases a)
    case (Inl e)
    with assms lk have "w1 = w0" by (simp add: check_cache_def)
    moreover have "urls \<noteq> []" using lk Inl by auto
    ultimately show ?thesis using w0 att wrn Inl assms lk
      by (auto simp: check_cache_def)
  next
    case (Inr x)
    show ?thesis
    proof (cases x)
      case None
      with Inr assms lk have "w1 = w0" "r = Inr None" by (simp_all add: check_cache_def)
      with w0 att wrn show ?thesis by auto
    next
      case (Some d)
      from lookup_Some lk Inr Some have d: "d \<in> set (entries w)" "url d \<in> set urls"
        by blast+
      have ex: "expired c d w0 = expired c d w" by (simp add: w0 expired_def split: option.splits)
      show ?thesis
      proof (cases "expired c d w")
        case False
        with Inr Some assms lk ex have "w1 = w0" "r = Inr (Some (file_path d))"
          by (simp_all add: check_cache_def)
        with w0 att wrn d False show ?thesis by auto
      next
        case True
        let ?t = "map (Find_by_key Key_url) us"
        from True Inr Some assms lk ex have
          "(\<exists>t2. trace w1 = trace w0 @ t2 \<and> attempted t2 = [] \<and> warned t2 = [] \<and>
              (\<forall>d. Store d \<notin> set t2)) \<and>
            set (entries w1) \<subseteq> set (entries w0) \<and> clock w1 = clock w0 \<and>
            (\<forall>p. r \<noteq> Inr (Some p))"
          by (auto simp: check_cache_def os_remove_def delete_by_key_def log_def
              split: option.splits)
        then obtain t2 where t2: "trace w1 = trace w0 @ t2" "attempted t2 = []"
          "warned t2 = []" "\<forall>d. Store d \<notin> set t2"
          and rest: "set (entries w1) \<subseteq> set (entries w0)" "clock w1 = clock w0"
            "\<forall>p. r \<noteq> Inr (Some p)"
          by blast
        have "trace w1 = trace w @ (?t @ t2)" using t2 w0 by simp
        moreover have "attempted (?t @ t2) = []" "warned (?t @ t2) = []"
          using att wrn t2 by simp_all
        moreover have "\<forall>d. Store d \<notin> set (?t @ t2)" using t2 by auto
        ultimately show ?thesis using rest w0 d by (intro exI [of _ "?t @ t2"]) auto
      qed
    qed
  qed
qed

lemma download_effect:
  assumes "download c env (Lst urls) rd w = (r, w')"
  shows "\<exists>t. trace w' = trace w @ t \<and>
     (attempted t = urls \<and> length (warned t) = length urls \<longrightarrow>
        r = Inl (RuntimeError ''Download failed'') \<and> (\<forall>d. Store d \<notin> set t) \<and>
        set (entries w') \<subseteq> set (entries w)) \<and>
     (\<forall>p. r = Inr p \<longrightarrow> (\<exists>pre u post b. urls = pre @ u # post \<and> attempted t = pre @ [u] \<and>
           length (warned t) = length pre \<and> Hash_file p \<in> set t \<and>
           files w' p = Some b \<and>
           (\<not> rd \<longrightarrow> (\<exists>es. set es \<subseteq> set (entries w) \<and>
              entries w' = es @ [\<lparr>file_hash = digest env b, file_path = p, url = u, time = clock w'\<rparr>]) \<and>
              Store \<lparr>file_hash = digest env b, file_path = p, url = u, time = clock w'\<rparr> \<in> set t)) \<or> (\<not> rd \<and> attempted t = [] \<and> files w' = files w \<and> entries w' = entries w \<and>
        (\<forall>ev\<in>set t. \<exists>u. ev = Find_by_key Key_url u) \<and>
        (\<exists>d\<in>set (entries w). url d \<in> set urls \<and> \<not> expired c d w \<and> p = file_path d))) \<and>
     (rd \<longrightarrow> entries w' = entries w \<and> (\<forall>ev\<in>set t. \<not> storage_call ev) \<and>
        (urls \<noteq> [] \<longrightarrow> attempted t \<noteq> [] \<and> hd (attempted t) = hd urls))"
proof (cases rd)
  case True
  with assms have fr: "download_fresh c env urls rd w = (r, w')"
    by (simp add: download_def)
  from download_fresh_effect [OF fr] obtain t where
    t: "trace w' = trace w @ t"
      "attempted t = urls \<and> length (warned t) = length urls \<longrightarrow>
        r = Inl (RuntimeError ''Download failed'') \<and> entries w' = entries w \<and>
        (\<forall>d. Store d \<notin> set t)"
      "\<forall>p. r = Inr p \<longrightarrow> (\<exists>pre u post b. urls = pre @ u # post \<and> attempted t = pre @ [u] \<and>
           length (warned t) = length pre \<and> Hash_file p \<in> set t \<and>
           files w' p = Some b \<and>
           (\<not> rd \<longrightarrow> entries w' = entries w @ [\<lparr>file_hash = digest env b, file_path = p, url = u, time = clock w'\<rparr>] \<and>
              Store \<lparr>file_hash = digest env b, file_path = p, url = u, time = clock w'\<rparr> \<in> set t))"
      "rd \<longrightarrow> entries w' = entries w \<and> (\<forall>ev\<in>set t. \<not> storage_call ev)"
      "urls \<noteq> [] \<longrightarrow> attempted t \<noteq> [] \<and> hd (attempted t) = hd urls"
    by blast
  have "\<forall>p. r = Inr p \<longrightarrow> (\<exists>pre u post b. urls = pre @ u # post \<and> attempted t = pre @ [u] \<and>
           length (warned t) = length pre \<and> Hash_file p \<in> set t \<and>
           files w' p = Some b \<and>
           (\<not> rd \<longrightarrow> (\<exists>es. set es \<subseteq> set (entries w) \<and>
              entries w' = es @ [\<lparr>file_hash = digest env b, file_path = p, url = u, time = clock w'\<rparr>]) \<and>
              Store \<lparr>file_hash = digest env b, file_path = p, url = u, time = clock w'\<rparr> \<in> set t))"
    using t(3) True by simp
  then show ?thesis using t(1,2,4,5) by (intro exI [of _ t]) auto
next
  case False
  obtain a w1 where cc: "check_cache c urls w = (a, w1)" by (cases "check_cache c urls w")
  from check_cache_effect [OF cc] obtain tc where
    tc: "trace w1 = trace w @ tc" "attempted tc = []" "warned tc = []"
      "\<forall>d. Store d \<notin> set tc" "set (entries w1) \<subseteq> set (entries w)"
      "\<forall>e. a = Inl e \<longrightarrow> urls \<noteq> []"
      "\<forall>p. a = Inr (Some p) \<longrightarrow>
              files w1 = files w \<and> entries w1 = entries w \<and>
              (\<forall>ev\<in>set tc. \<exists>u. ev = Find_by_key Key_url u) \<and>
              (\<exists>d\<in>set (entries w). url d \<in> set urls \<and> \<not> expired c d w \<and> p = file_path d)"
    by blast
  show ?thesis
  proof (cases a)
    case (Inl e)
    with assms cc False have rw: "r = Inl e" "w' = w1" by (simp_all add: download_def)
    from tc(6) Inl have "urls \<noteq> []" by simp
    with tc(2) have "attempted tc \<noteq> urls" by simp
    then show ?thesis using rw tc(1) False by (intro exI [of _ tc]) auto
  next
    case (Inr x)
    show ?thesis
    proof (cases x)
      case (Some p)
      with Inr assms cc False have rw: "r = Inr p" "w' = w1"
        by (simp_all add: download_def)
      from tc(7) Inr Some have hit: "files w1 = files w" "entries w1 = entries w"
        "\<forall>ev\<in>set tc. \<exists>u. ev = Find_by_key Key_url u"
        "\<exists>d\<in>set (entries w). url d \<in> set urls \<and> \<not> expired c d w \<and> p = file_path d"
        by simp_all
      from hit(4) have "urls \<noteq> []" by auto
      with tc(2) have "attempted tc \<noteq> urls" by simp
      then show ?thesis using rw tc(1,2) hit False by (intro exI [of _ tc]) auto
    next
      case None
      with Inr assms cc False have fr: "download_fresh c env urls rd w1 = (r, w')"
        by (simp add: download_def)
      from download_fresh_effect [OF fr] obtain tf where
        tf: "trace w' = trace w1 @ tf"
          "attempted tf = urls \<and> length (warned tf) = length urls \<longrightarrow>
            r = Inl (RuntimeError ''Download failed'') \<and> entries w' = entries w1 \<and>
            (\<forall>d. Store d \<notin> set tf)"
          "\<forall>p. r = Inr p \<longrightarrow> (\<exists>pre u post b. urls = pre @ u # post \<and> attempted tf = pre @ [u] \<and>
           length (warned tf) = length pre \<and> Hash_file p \<in> set tf \<and>
           files w' p = Some b \<and>
           (\<not> rd \<longrightarrow> entries w' = entries w1 @ [\<lparr>file_hash = digest env b, file_path = p, url = u, time = clock w'\<rparr>] \<and>
              Store \<lparr>file_hash = digest env b, file_path = p, url = u, time = clock w'\<rparr> \<in> set tf))"
        by blast
      let ?t = "tc @ tf"
      have tr: "trace w' = trace w @ ?t" using tc(1) tf(1) by simp
      have att: "attempted ?t = attempted tf" "warned ?t = warned tf"
        using tc(2,3) by simp_all
      have d1: "attempted ?t = urls \<and> length (warned ?t) = length urls \<longrightarrow>
        r = Inl (RuntimeError ''Download failed'') \<and> (\<forall>d. Store d \<notin> set ?t) \<and>
        set (entries w') \<subseteq> set (entries w)"
        using tf(2) tc(4,5) att by auto
      have d2: "\<forall>p. r = Inr p \<longrightarrow> (\<exists>pre u post b. urls = pre @ u # post \<and> attempted ?t = pre @ [u] \<and>
           length (warned ?t) = length pre \<and> Hash_file p \<in> set ?t \<and>
           files w' p = Some b \<and>
           (\<not> rd \<longrightarrow> (\<exists>es. set es \<subseteq> set (entries w) \<and>
              entries w' = es @ [\<lparr>file_hash = digest env b, file_path = p, url = u, time = clock w'\<rparr>]) \<and>
              Store \<lparr>file_hash = digest env b, file_path = p, url = u, time = clock w'\<rparr> \<in> set ?t))"
      proof (intro allI impI)
        fix p assume "r = Inr p"
        with tf(3) obtain pre u post b where
          a: "urls = pre @ u # post" "attempted tf = pre @ [u]"
            "length (warned tf) = length pre" "Hash_file p \<in> set tf" "files w' p = Some b"
            "entries w' = entries w1 @ [\<lparr>file_hash = digest env b, file_path = p, url = u, time = clock w'\<rparr>]"
            "Store \<lparr>file_hash = digest env b, file_path = p, url = u, time = clock w'\<rparr> \<in> set tf"
          using False by blast
        have "set (entries w1) \<subseteq> set (entries w) \<and> entries w' = entries w1 @ [\<lparr>file_hash = digest env b, file_path = p, url = u, time = clock w'\<rparr>]"
          using a(6) tc(5) by simp
        then have es: "\<exists>es. set es \<subseteq> set (entries w) \<and> entries w' = es @ [\<lparr>file_hash = digest env b, file_path = p, url = u, time = clock w'\<rparr>]"
          by (intro exI)
        have "urls = pre @ u # post \<and> attempted ?t = pre @ [u] \<and>
           length (warned ?t) = length pre \<and> Hash_file p \<in> set ?t \<and>
           files w' p = Some b \<and>
           (\<not> rd \<longrightarrow> (\<exists>es. set es \<subseteq> set (entries w) \<and>
              entries w' = es @ [\<lparr>file_hash = digest env b, file_path = p, url = u, time = clock w'\<rparr>]) \<and>
              Store \<lparr>file_hash = digest env b, file_path = p, url = u, time = clock w'\<rparr> \<in> set ?t)"
          using a att es by simp
        then show "(\<exists>pre u post b. urls = pre @ u # post \<and> attempted ?t = pre @ [u] \<and>
           length (warned ?t) = length pre \<and> Hash_file p \<in> set ?t \<and>
           files w' p = Some b \<and>
           (\<not> rd \<longrightarrow> (\<exists>es. set es \<subseteq> set (entries w) \<and>
              entries w' = es @ [\<lparr>file_hash = digest env b, file_path = p, url = u, time = clock w'\<rparr>]) \<and>
              Store \<lparr>file_hash = digest env b, file_path = p, url = u, time = clock w'\<rparr> \<in> set ?t))"
          by (intro exI)
      qed
      show ?thesis using tr d1 d2 False by (intro exI [of _ ?t]) blast
    qed
  qed
qed

lemma download_hit:
  assumes nofault: "\<forall>u\<in>set urls. storage_fault c (Find_by_key Key_url u) = None"
    and hit: "first_match urls (entries w) = Some d"
    and fresh: "\<not> expired c d w"
  shows "download c env (Lst urls) False w =
           (Inr (file_path d),
            w\<lparr>trace := trace w @ map (Find_by_key Key_url) (queried urls (entries w))\<rparr>)"
proof -
  have "\<not> expired c d
      (w\<lparr>trace := trace w @ map (Find_by_key Key_url) (queried urls (entries w))\<rparr>)"
    using fresh by (auto simp: expired_def split: option.splits)
  then show ?thesis
    using lookup_no_fault [OF nofault, of w] hit
    by (simp add: download_def check_cache_def)
qed

lemma download_miss:
  assumes nofault: "\<forall>u\<in>set urls. storage_fault c (Find_by_key Key_url u) = None"
    and miss: "first_match urls (entries w) = None"
  shows "download c env (Lst urls) False w =
           download_fresh c env urls False
             (w\<lparr>trace := trace w @ map (Find_by_key Key_url) (queried urls (entries w))\<rparr>)"
  using lookup_no_fault [OF nofault, of w] miss
  by (simp add: download_def check_cache_def)

lemma download_stale:
  assumes nofault: "\<forall>u\<in>set urls. storage_fault c (Find_by_key Key_url u) = None"
    and nodel: "storage_fault c (Delete_by_key Key_url (url d)) = None"
    and hit: "first_match urls (entries w) = Some d"
    and stale: "expired c d w"
    and present: "files w (file_path d) \<noteq> None"
  shows "download c env (Lst urls) False w =
           download_fresh c env urls False
             (w\<lparr>files := (files w)(file_path d := None),
                entries := filter (\<lambda>e. url e \<noteq> url d) (entries w),
                trace := trace w @ map (Find_by_key Key_url) (queried urls (entries w)) @
                  [Os_remove (file_path d), Delete_by_key Key_url (url d)]\<rparr>)"
proof -
  have "expired c d
      (w\<lparr>trace := trace w @ map (Find_by_key Key_url) (queried urls (entries w))\<rparr>)"
    using stale by (auto simp: expired_def split: option.splits)
  then show ?thesis
    using lookup_no_fault [OF nofault, of w] hit nodel present
    by (auto simp: download_def check_cache_def os_remove_def delete_by_key_def log_def)
qed

lemma stale_success_present:
  assumes nofault: "\<forall>u\<in>set urls. storage_fault c (Find_by_key Key_url u) = None"
    and hit: "first_match urls (entries w) = Some d"
    and stale: "expired c d w"
    and first: "download c env (Lst urls) False w = (Inr p, w1)"
  shows "files w (file_path d) \<noteq> None"
proof
  assume "files w (file_path d) = None"
  moreover have "expired c d
      (w\<lparr>trace := trace w @ map (Find_by_key Key_url) (queried urls (entries w))\<rparr>)"
    using stale by (auto simp: expired_def split: option.splits)
  ultimately have "fst (download c env (Lst urls) False w) =
      Inl (FileNotFoundError (file_path d))"
    using lookup_no_fault [OF nofault, of w] hit
    by (simp add: download_def check_cache_def os_remove_def)
  with first show False by simp
qed

lemma find_append:
  "find P (xs @ ys) = (case find P xs of None \<Rightarrow> find P ys | Some x \<Rightarrow> Some x)"
  by (induction xs) auto

lemma first_match_None:
  "first_match urls es = None \<Longrightarrow> u \<in> set urls \<Longrightarrow> find (\<lambda>e. url e = u) es = None"
  by (induction urls) (auto split: option.splits)

lemma first_match_cold_append:
  "first_match urls es = None \<Longrightarrow> url d \<in> set urls \<Longrightarrow>
   first_match urls (es @ [d]) = Some d"
proof (induction urls)
  case Nil
  then show ?case by simp
next
  case (Cons v vs)
  from Cons.prems(1) have none: "find (\<lambda>e. url e = v) es = None"
    and rest: "first_match vs es = None"
    by (auto split: option.splits)
  show ?case
  proof (cases "url d = v")
    case True
    then show ?thesis using none by (simp add: find_append)
  next
    case False
    with Cons.prems(2) have "url d \<in> set vs" by simp
    from Cons.IH [OF rest this] show ?thesis using none False by (simp add: find_append)
  qed
qed

lemma matches_single:
  assumes single: "length (filter (\<lambda>d. url d \<in> set urls) es) \<le> 1"
    and hit: "first_match urls es = Some d"
  shows "first_match urls (filter (\<lambda>e. url e \<noteq> url d) es) = None"
proof -
  from first_match_queried [OF hit] have fd: "find (\<lambda>e. url e = url d) es = Some d"
    and ud: "url d \<in> set urls" by auto
  from fd have din: "d \<in> set es" by (auto simp: find_Some_iff)
  have only: "url e = url d" if "e \<in> set es" "url e \<in> set urls" for e
  proof (rule ccontr)
    assume ne: "url e \<noteq> url d"
    let ?m = "filter (\<lambda>d. url d \<in> set urls) es"
    have "d \<in> set ?m" "e \<in> set ?m" using din ud that by simp_all
    moreover have "d \<noteq> e" using ne by auto
    ultimately have "{d, e} \<subseteq> set ?m \<and> card {d, e} = 2" by simp
    then have "2 \<le> card (set ?m)" by (metis card_mono List.finite_set)
    also have "card (set ?m) \<le> length ?m" by (rule card_length)
    finally show False using single by simp
  qed
  have none: "\<forall>e\<in>set (filter (\<lambda>e. url e \<noteq> url d) es). url e \<notin> set urls"
    using only by auto
  have "first_match us (filter (\<lambda>e. url e \<noteq> url d) es) = None" if "set us \<subseteq> set urls" for us
    using that
  proof (induction us)
    case Nil
    then show ?case by simp
  next
    case (Cons v vs)
    then have "v \<in> set urls" by simp
    with none have "find (\<lambda>e. url e = v) (filter (\<lambda>e. url e \<noteq> url d) es) = None"
      by (auto simp: find_None_iff)
    with Cons show ?case by simp
  qed
  then show ?thesis by simp
qed

subsection \<open>A forced download does not depend on the storage provider\<close>

lemma download_url_storage_indep:
  "download_url (c\<lparr>storage_fault := sf\<rparr>) env u (w\<lparr>entries := es\<rparr>) =
     (fst (download_url c env u w), (snd (download_url c env u w))\<lparr>entries := es\<rparr>)"
  by (simp add: download_url_def Let_def hash_file_def log_def
      split: sum.splits option.splits)

lemma download_and_hash_storage_indep:
  "download_and_hash (c\<lparr>storage_fault := sf\<rparr>) env urls (w\<lparr>entries := es\<rparr>) =
     (fst (download_and_hash c env urls w),
      (snd (download_and_hash c env urls w))\<lparr>entries := es\<rparr>)"
proof (induction urls arbitrary: w)
  case Nil
  then show ?case by simp
next
  case (Cons u us)
  obtain r1 w1 where one: "download_url c env u w = (r1, w1)"
    by (cases "download_url c env u w")
  have one': "download_url (c\<lparr>storage_fault := sf\<rparr>) env u (w\<lparr>entries := es\<rparr>) =
      (r1, w1\<lparr>entries := es\<rparr>)"
    using download_url_storage_indep [where c = c and sf = sf and env = env and u = u and w = w and es = es] one by simp
  show ?case
  proof (cases r1)
    case (Inr x)
    then show ?thesis using one one' by simp
  next
    case (Inl e)
    show ?thesis
    proof (cases "warn_fault env e")
      case (Some x)
      then show ?thesis using one one' Inl by (simp add: warn_def)
    next
      case None
      have w: "log (Warn e) (w1\<lparr>entries := es\<rparr>) = (log (Warn e) w1)\<lparr>entries := es\<rparr>"
        by (simp add: log_def)
      show ?thesis
        using one one' Inl None Cons.IH [where w = "log (Warn e) w1"]
        by (simp add: warn_def w)
    qed
  qed
qed

lemma redownload_storage_indep:
  "download (c\<lparr>storage_fault := sf\<rparr>) env (Lst urls) True (w\<lparr>entries := es\<rparr>) =
     (fst (download c env (Lst urls) True w),
      (snd (download c env (Lst urls) True w))\<lparr>entries := es\<rparr>)"
  using download_and_hash_storage_indep [where c = c and sf = sf and env = env and urls = urls and w = w and es = es]
  by (simp add: download_def download_fresh_def split: prod.splits sum.splits)

section \<open>The claims\<close>

subsection \<open>Answering from the cache\<close>

text \<open>
  C1. A call \<open>download(urls)\<close> without \<open>redownload\<close> asks the storage provider about
  the candidate URLs in the order of the list and takes the first entry it is given: the
  first record stored under the first URL that has one. The URLs asked about are those
  before that URL, none of which keys any record, and that URL itself. When the entry has
  not expired (no expiry is configured, or the age of the entry is not greater than the
  expiry), the call returns the \<open>file_path\<close> of the entry, and the queries are all it
  did: nothing is downloaded, no file and no record is touched. The storage provider is
  taken to answer the queries without a fault.
\<close>

theorem cache_hit_fresh:
  assumes nofault: "\<forall>u\<in>set urls. storage_fault c (Find_by_key Key_url u) = None"
    and hit: "first_match urls (entries w) = Some d"
    and fresh: "expiry c = None \<or> (\<exists>x. expiry c = Some x \<and> clock w - time d \<le> x)"
  shows "download c env (Lst urls) False w =
           (Inr (file_path d),
            w\<lparr>trace := trace w @ map (Find_by_key Key_url) (queried urls (entries w))\<rparr>) \<and>
         filter network_call (new_events w (snd (download c env (Lst urls) False w))) = [] \<and>
         (\<exists>pre post. urls = pre @ url d # post \<and>
            queried urls (entries w) = pre @ [url d] \<and>
            (\<forall>u\<in>set pre. \<forall>e\<in>set (entries w). url e \<noteq> u) \<and>
            find (\<lambda>e. url e = url d) (entries w) = Some d)"
proof -
  have "\<not> expired c d w"
    using fresh by (auto simp: expired_def)
  with nofault hit have "download c env (Lst urls) False w =
           (Inr (file_path d),
            w\<lparr>trace := trace w @ map (Find_by_key Key_url) (queried urls (entries w))\<rparr>)"
    by (rule download_hit)
  with first_match_queried [OF hit] show ?thesis by (simp add: new_events_def)
qed

theorem cache_hit_fresh_witness:
  "first_match [''http://a/f'', ''http://c/f''] (entries (warm_world 5)) = Some old_entry \<and>
   expiry mirrors_cache = Some 10 \<and> clock (warm_world 5) - time old_entry \<le> 10 \<and>
   download mirrors_cache mirrors_env (Lst [''http://a/f'', ''http://c/f'']) False
       (warm_world 5) =
     (Inr ''/cache/f'',
      (warm_world 5)\<lparr>trace := [Find_by_key Key_url ''http://a/f'',
                                Find_by_key Key_url ''http://c/f'']\<rparr>)"
proof -
  have nofault: "\<forall>u\<in>set [''http://a/f'', ''http://c/f''].
      storage_fault mirrors_cache (Find_by_key Key_url u) = None"
    by (simp add: mirrors_cache_def)
  have hit: "first_match [''http://a/f'', ''http://c/f''] (entries (warm_world 5)) =
      Some old_entry"
    by (simp add: warm_world_def old_entry_def)
  have fresh: "expiry mirrors_cache = None \<or>
      (\<exists>x. expiry mirrors_cache = Some x \<and> clock (warm_world 5) - time old_entry \<le> x)"
    by (simp add: mirrors_cache_def warm_world_def old_entry_def)
  show ?thesis
    using cache_hit_fresh [OF nofault hit fresh, of mirrors_env] hit
    by (simp add: mirrors_cache_def warm_world_def old_entry_def)
qed

subsection \<open>Eviction\<close>

text \<open>
  C2, as the claim states it, fails: the fresh download may be written to the path the
  evicted file had. \<open>os.remove\<close> frees the name before \<open>replacement_filename\<close> looks
  for a free one, so a mirror that delivers the same file name gets the old path back.
  Here the cache holds the file of the third mirror under \<open>/cache/f\<close>, downloaded at
  time 0 and read at time 100 with an expiry of 10: the call returns \<open>/cache/f\<close>, and
  afterwards that path exists (with the new content).
\<close>

theorem stale_path_reused:
  "first_match [''http://c/f''] (entries (warm_world 100)) = Some old_entry \<and>
   expired mirrors_cache old_entry (warm_world 100) \<and>
   files (warm_world 100) (file_path old_entry) = Some ''old'' \<and>
   fst (download mirrors_cache mirrors_env (Lst [''http://c/f'']) False (warm_world 100)) =
     Inr (file_path old_entry) \<and>
   files (snd (download mirrors_cache mirrors_env (Lst [''http://c/f'']) False
     (warm_world 100))) (file_path old_entry) = Some ''data'' \<and>
   trace (snd (download mirrors_cache mirrors_env (Lst [''http://c/f'']) False
     (warm_world 100))) =
     [Find_by_key Key_url ''http://c/f'', Os_remove ''/cache/f'',
      Delete_by_key Key_url ''http://c/f'', Urlopen ''http://c/f'',
      Downloader_download ''http://c/f'' ''/cache/f'', Hash_file ''/cache/f'',
      Store \<lparr>file_hash = ''sha-data'', file_path = ''/cache/f'', url = ''http://c/f'',
             time = 101\<rparr>]"
  by (simp add: method_defs example_defs)

text \<open>
  C2, amended. Suppose the lookup of a call \<open>download(urls)\<close> without \<open>redownload\<close>
  finds an entry whose age is strictly greater than the configured expiry, the file of
  the entry exists, and the storage provider raises no fault. Then the call removes the
  file, deletes the records stored under the URL of the entry, and goes on from that
  state with lines 80 to 89: the download over the whole list of URLs. The path of the
  entry is not returned as a cache hit. When the call returns a path, this call hashed
  the file at that path, the file exists, and the records are the old ones without those
  of the evicted URL, followed by one new record for the returned path. Afterwards the
  old path exists only if a download of this call was written to it.
\<close>

theorem stale_entry_evicted:
  assumes nofault: "\<forall>u\<in>set urls. storage_fault c (Find_by_key Key_url u) = None"
    and nodel: "storage_fault c (Delete_by_key Key_url (url d)) = None"
    and hit: "first_match urls (entries w) = Some d"
    and stale: "\<exists>x. expiry c = Some x \<and> x < clock w - time d"
    and present: "files w (file_path d) \<noteq> None"
  shows "download c env (Lst urls) False w =
           download_fresh c env urls False
             (w\<lparr>files := (files w)(file_path d := None),
                entries := filter (\<lambda>e. url e \<noteq> url d) (entries w),
                trace := trace w @ map (Find_by_key Key_url) (queried urls (entries w)) @
                  [Os_remove (file_path d), Delete_by_key Key_url (url d)]\<rparr>) \<and>
         (\<forall>r w'. download c env (Lst urls) False w = (r, w') \<longrightarrow>
            (files w' (file_path d) \<noteq> None \<longrightarrow>
               (\<exists>u. Downloader_download u (file_path d) \<in> set (new_events w w'))) \<and>
            (\<forall>p. r = Inr p \<longrightarrow>
               Hash_file p \<in> set (new_events w w') \<and> (\<exists>b. files w' p = Some b) \<and>
               (\<exists>e. entries w' = filter (\<lambda>e. url e \<noteq> url d) (entries w) @ [e] \<and>
                  file_path e = p \<and> url e \<in> set urls \<and> time e = clock w')))"
proof -
  let ?tq = "map (Find_by_key Key_url) (queried urls (entries w)) @
                  [Os_remove (file_path d), Delete_by_key Key_url (url d)]"
  let ?w3 = "w\<lparr>files := (files w)(file_path d := None),
                entries := filter (\<lambda>e. url e \<noteq> url d) (entries w),
                trace := trace w @ ?tq\<rparr>"
  have exp: "expired c d w" using stale by (auto simp: expired_def)
  have eq: "download c env (Lst urls) False w = download_fresh c env urls False ?w3"
    using nofault nodel hit exp present by (rule download_stale)
  have rest: "(files w' (file_path d) \<noteq> None \<longrightarrow>
               (\<exists>u. Downloader_download u (file_path d) \<in> set (new_events w w'))) \<and>
            (\<forall>p. r = Inr p \<longrightarrow>
               Hash_file p \<in> set (new_events w w') \<and> (\<exists>b. files w' p = Some b) \<and>
               (\<exists>e. entries w' = filter (\<lambda>e. url e \<noteq> url d) (entries w) @ [e] \<and>
                  file_path e = p \<and> url e \<in> set urls \<and> time e = clock w'))"
    if call: "download c env (Lst urls) False w = (r, w')" for r w'
  proof -
    from call eq have fr: "download_fresh c env urls False ?w3 = (r, w')" by simp
    from download_fresh_effect [OF fr] obtain tf where
      tf: "trace w' = trace ?w3 @ tf"
        "\<forall>p. r = Inr p \<longrightarrow>
          (\<exists>pre u post b. urls = pre @ u # post \<and> attempted tf = pre @ [u] \<and>
             length (warned tf) = length pre \<and> Hash_file p \<in> set tf \<and>
             files w' p = Some b \<and>
             (\<not> False \<longrightarrow> entries w' = entries ?w3 @
                  [\<lparr>file_hash = digest env b, file_path = p, url = u, time = clock w'\<rparr>] \<and>
                Store \<lparr>file_hash = digest env b, file_path = p, url = u, time = clock w'\<rparr>
                  \<in> set tf))"
        "\<forall>q. files w' q \<noteq> files ?w3 q \<longrightarrow> (\<exists>u. Downloader_download u q \<in> set tf)"
      by blast
    have "trace w' = trace w @ (?tq @ tf)" using tf(1) by simp
    then have ne: "new_events w w' = ?tq @ tf" by (rule new_events_app)
    have a: "files w' (file_path d) \<noteq> None \<longrightarrow>
               (\<exists>u. Downloader_download u (file_path d) \<in> set (new_events w w'))"
    proof
      assume "files w' (file_path d) \<noteq> None"
      then have "files w' (file_path d) \<noteq> files ?w3 (file_path d)" by simp
      with tf(3) obtain u where "Downloader_download u (file_path d) \<in> set tf" by blast
      then have "Downloader_download u (file_path d) \<in> set (new_events w w')"
        unfolding ne by simp
      then show "\<exists>u. Downloader_download u (file_path d) \<in> set (new_events w w')" ..
    qed
    have b: "\<forall>p. r = Inr p \<longrightarrow>
               Hash_file p \<in> set (new_events w w') \<and> (\<exists>b. files w' p = Some b) \<and>
               (\<exists>e. entries w' = filter (\<lambda>e. url e \<noteq> url d) (entries w) @ [e] \<and>
                  file_path e = p \<and> url e \<in> set urls \<and> time e = clock w')"
    proof (intro allI impI)
      fix p assume "r = Inr p"
      with tf(2) obtain pre u post b where
        s: "urls = pre @ u # post" "Hash_file p \<in> set tf" "files w' p = Some b"
          "entries w' = entries ?w3 @
            [\<lparr>file_hash = digest env b, file_path = p, url = u, time = clock w'\<rparr>]"
        by auto
      let ?e = "\<lparr>file_hash = digest env b, file_path = p, url = u, time = clock w'\<rparr>"
      have "entries w' = filter (\<lambda>e. url e \<noteq> url d) (entries w) @ [?e] \<and>
                  file_path ?e = p \<and> url ?e \<in> set urls \<and> time ?e = clock w'"
        using s by simp
      then have "\<exists>e. entries w' = filter (\<lambda>e. url e \<noteq> url d) (entries w) @ [e] \<and>
                  file_path e = p \<and> url e \<in> set urls \<and> time e = clock w'"
        by (intro exI)
      then show "Hash_file p \<in> set (new_events w w') \<and> (\<exists>b. files w' p = Some b) \<and>
               (\<exists>e. entries w' = filter (\<lambda>e. url e \<noteq> url d) (entries w) @ [e] \<and>
                  file_path e = p \<and> url e \<in> set urls \<and> time e = clock w')"
        using s(2,3) unfolding ne by simp
    qed
    from a b show ?thesis by (intro conjI)
  qed
  from eq rest show ?thesis by blast
qed

theorem stale_entry_evicted_witness:
  "first_match [''http://a/f'', ''http://c/f''] (entries (warm_world 100)) = Some old_entry \<and>
   expiry mirrors_cache = Some 10 \<and> 10 < clock (warm_world 100) - time old_entry \<and>
   files (warm_world 100) (file_path old_entry) = Some ''old'' \<and>
   trace (snd (download mirrors_cache mirrors_env (Lst [''http://a/f'', ''http://c/f''])
     False (warm_world 100))) =
     [Find_by_key Key_url ''http://a/f'', Find_by_key Key_url ''http://c/f'',
      Os_remove ''/cache/f'', Delete_by_key Key_url ''http://c/f'',
      Urlopen ''http://a/f'', Warn (URLError ''unreachable''),
      Urlopen ''http://c/f'', Downloader_download ''http://c/f'' ''/cache/f'',
      Hash_file ''/cache/f'',
      Store \<lparr>file_hash = ''sha-data'', file_path = ''/cache/f'', url = ''http://c/f'',
             time = 102\<rparr>]"
proof -
  have nofault: "\<forall>u\<in>set [''http://a/f'', ''http://c/f''].
      storage_fault mirrors_cache (Find_by_key Key_url u) = None"
    by (simp add: mirrors_cache_def)
  have nodel: "storage_fault mirrors_cache (Delete_by_key Key_url (url old_entry)) = None"
    by (simp add: mirrors_cache_def)
  have hit: "first_match [''http://a/f'', ''http://c/f''] (entries (warm_world 100)) =
      Some old_entry"
    by (simp add: warm_world_def old_entry_def)
  have stale: "\<exists>x. expiry mirrors_cache = Some x \<and>
      x < clock (warm_world 100) - time old_entry"
    by (simp add: mirrors_cache_def warm_world_def old_entry_def)
  have present: "files (warm_world 100) (file_path old_entry) \<noteq> None"
    by (simp add: warm_world_def old_entry_def)
  show ?thesis
    using stale_entry_evicted [OF nofault nodel hit stale present, of mirrors_env] hit
    by (simp add: method_defs example_defs)
qed

text \<open>
  C9. Suppose the lookup of a call \<open>download(urls)\<close> finds an entry that has expired, and
  the eviction fails: the file of the entry cannot be removed, or the storage provider
  raises when the entry is deleted. Then the call raises that very fault,
  \<open>FileNotFoundError\<close> for the file or the fault of the storage provider, and returns no
  path. Nothing is called after the failing step: no warning is issued for the fault and
  no download is attempted.
\<close>

theorem eviction_fault_surfaced:
  assumes found: "lookup c urls w = (Inr (Some d), w1)"
    and stale: "expired c d w1"
    and fails: "files w1 (file_path d) = None \<or>
                storage_fault c (Delete_by_key Key_url (url d)) \<noteq> None"
  shows "\<exists>e w'. download c env (Lst urls) False w = (Inl e, w') \<and>
           (if files w1 (file_path d) = None then e = FileNotFoundError (file_path d)
            else storage_fault c (Delete_by_key Key_url (url d)) = Some e) \<and>
           entries w' = entries w1 \<and>
           set (new_events w1 w') \<subseteq> {Os_remove (file_path d), Delete_by_key Key_url (url d)}"
  using assms
  by (auto simp: download_def check_cache_def os_remove_def delete_by_key_def log_def
      new_events_def split: option.splits)

theorem eviction_fault_surfaced_witness:
  "lookup locked_cache [''http://a/f'', ''http://c/f''] (warm_world 100) =
     (Inr (Some old_entry),
      (warm_world 100)\<lparr>trace := [Find_by_key Key_url ''http://a/f'',
                                  Find_by_key Key_url ''http://c/f'']\<rparr>) \<and>
   expired locked_cache old_entry (warm_world 100) \<and>
   storage_fault locked_cache (Delete_by_key Key_url (url old_entry)) \<noteq> None \<and>
   fst (download locked_cache mirrors_env (Lst [''http://a/f'', ''http://c/f'']) False
          (warm_world 100)) = Inl (StorageError ''locked'') \<and>
   files (snd (download locked_cache mirrors_env (Lst [''http://a/f'', ''http://c/f'']) False
          (warm_world 100))) ''/cache/f'' = None \<and>
   entries (snd (download locked_cache mirrors_env (Lst [''http://a/f'', ''http://c/f''])
          False (warm_world 100))) = [old_entry] \<and>
   download mirrors_cache mirrors_env (Lst [''http://c/f'']) False
       ((warm_world 100)\<lparr>files := Map.empty\<rparr>) =
     (Inl (FileNotFoundError ''/cache/f''),
      (warm_world 100)\<lparr>files := Map.empty,
         trace := [Find_by_key Key_url ''http://c/f'', Os_remove ''/cache/f'']\<rparr>)"
proof -
  let ?w1 = "(warm_world 100)\<lparr>trace := [Find_by_key Key_url ''http://a/f'',
                                  Find_by_key Key_url ''http://c/f'']\<rparr>"
  have found: "lookup locked_cache [''http://a/f'', ''http://c/f''] (warm_world 100) =
     (Inr (Some old_entry), ?w1)"
    by (simp add: locked_cache_def get_by_url_def find_by_key_def log_def example_defs)
  have stale: "expired locked_cache old_entry ?w1"
    by (simp add: expired_def locked_cache_def example_defs)
  have fails: "files ?w1 (file_path old_entry) = None \<or>
      storage_fault locked_cache (Delete_by_key Key_url (url old_entry)) \<noteq> None"
    by (simp add: locked_cache_def)
  let ?v = "(warm_world 100)\<lparr>files := Map.empty\<rparr>"
  let ?v1 = "?v\<lparr>trace := [Find_by_key Key_url ''http://c/f'']\<rparr>"
  have found': "lookup mirrors_cache [''http://c/f''] ?v = (Inr (Some old_entry), ?v1)"
    by (simp add: get_by_url_def find_by_key_def log_def example_defs)
  have stale': "expired mirrors_cache old_entry ?v1"
    by (simp add: expired_def example_defs)
  have fails': "files ?v1 (file_path old_entry) = None \<or>
      storage_fault mirrors_cache (Delete_by_key Key_url (url old_entry)) \<noteq> None"
    by (simp add: example_defs)
  show ?thesis
    using found stale fails eviction_fault_surfaced [OF found stale fails, of mirrors_env]
      eviction_fault_surfaced [OF found' stale' fails', of mirrors_env]
    by (simp add: method_defs locked_cache_def example_defs)
qed

subsection \<open>Download with fallback\<close>

text \<open>
  C3. The claim has every failure of a single URL reported as a warning that is not
  fatal, after which the next URL is tried. The code hands the exception object to
  \<open>warnings.warn\<close> (line 140), and in a process whose warning filters hold a message
  pattern that call raises \<open>TypeError\<close> from inside the \<open>except\<close> block. Here the
  first mirror is unreachable and the third would deliver: the loop, and the call of
  \<open>download\<close>, end with the \<open>TypeError\<close> after the one attempt, no warning is
  reported, the third mirror is never tried and nothing is stored. With filters that do
  not look at messages the same call warns, goes on to the third mirror and returns its
  path.
\<close>

theorem warning_ends_fallback:
  "download_and_hash mirrors_cache filtered_env [''http://a/f'', ''http://c/f''] cold_world =
     (Inl (TypeError ''expected string or bytes-like object''),
      cold_world\<lparr>clock := 101, trace := [Urlopen ''http://a/f'']\<rparr>) \<and>
   download mirrors_cache filtered_env (Lst [''http://a/f'', ''http://c/f'']) False
       cold_world =
     (Inl (TypeError ''expected string or bytes-like object''),
      cold_world\<lparr>clock := 101,
        trace := [Find_by_key Key_url ''http://a/f'', Find_by_key Key_url ''http://c/f'',
                  Urlopen ''http://a/f'']\<rparr>) \<and>
   fst (download mirrors_cache mirrors_env (Lst [''http://a/f'', ''http://c/f'']) False
       cold_world) = Inr ''/cache/f'' \<and>
   trace (snd (download mirrors_cache mirrors_env (Lst [''http://a/f'', ''http://c/f''])
       False cold_world)) =
     [Find_by_key Key_url ''http://a/f'', Find_by_key Key_url ''http://c/f'',
      Urlopen ''http://a/f'', Warn (URLError ''unreachable''),
      Urlopen ''http://c/f'', Downloader_download ''http://c/f'' ''/cache/f'',
      Hash_file ''/cache/f'',
      Store \<lparr>file_hash = ''sha-data'', file_path = ''/cache/f'', url = ''http://c/f'',
             time = 102\<rparr>]"
  by (simp add: method_defs filtered_env_def cold_world_def example_defs)

text \<open>
  C4. The claim has a call in which every candidate URL fails raise the one fault that
  says the mirrors are exhausted. Through the same call of \<open>warnings.warn\<close> (line 140)
  the code does not get that far in a process whose warning filters hold a message
  pattern. Here both mirrors of the list fail: the call ends with the \<open>TypeError\<close> of the
  first warning, not with \<open>RuntimeError("Download failed")\<close>, and the second mirror is
  never attempted. No path is returned and no record is stored, as the claim says. With
  filters that do not look at messages the same call attempts both mirrors, warns twice
  and raises \<open>RuntimeError("Download failed")\<close>.
\<close>

theorem failing_mirrors_not_exhausted:
  "download mirrors_cache filtered_env (Lst [''http://a/f'', ''http://b/f'']) True
       cold_world =
     (Inl (TypeError ''expected string or bytes-like object''),
      cold_world\<lparr>clock := 101, trace := [Urlopen ''http://a/f'']\<rparr>) \<and>
   download mirrors_cache filtered_env (Lst [''http://a/f'', ''http://b/f'']) False
       cold_world =
     (Inl (TypeError ''expected string or bytes-like object''),
      cold_world\<lparr>clock := 101,
        trace := [Find_by_key Key_url ''http://a/f'', Find_by_key Key_url ''http://b/f'',
                  Urlopen ''http://a/f'']\<rparr>) \<and>
   download mirrors_cache mirrors_env (Lst [''http://a/f'', ''http://b/f'']) False
       cold_world =
     (Inl (RuntimeError ''Download failed''),
      cold_world\<lparr>clock := 102,
        trace := [Find_by_key Key_url ''http://a/f'', Find_by_key Key_url ''http://b/f'',
                  Urlopen ''http://a/f'', Warn (URLError ''unreachable''),
                  Urlopen ''http://b/f'', Downloader_download ''http://b/f'' ''/cache/f'',
                  Warn (DownloaderError ''refused'')]\<rparr>)"
  by (simp add: method_defs filtered_env_def cold_world_def example_defs)

subsection \<open>A forced download\<close>

text \<open>
  C5. A call \<open>download(urls, redownload=True)\<close> makes no call of the storage provider,
  neither a query nor a \<open>store\<close> nor a deletion, and leaves its records as they were.
  What the call returns and what it does to the files do not depend on the records the
  storage provider holds or on how it behaves: with other records and another provider the
  same call gives the same result. With a list that is not empty the call goes to the
  network, starting with the first URL, also when the records hold an unexpired entry for
  the URL.
\<close>

theorem redownload_bypasses_cache:
  assumes call: "download c env (Lst urls) True w = (r, w')"
  shows "entries w' = entries w \<and>
         (\<forall>ev\<in>set (new_events w w'). \<not> storage_call ev) \<and>
         (urls \<noteq> [] \<longrightarrow> attempted (new_events w w') \<noteq> [] \<and>
            hd (attempted (new_events w w')) = hd urls) \<and>
         download (c\<lparr>storage_fault := sf\<rparr>) env (Lst urls) True (w\<lparr>entries := es\<rparr>) =
           (r, w'\<lparr>entries := es\<rparr>)"
proof -
  from download_effect [OF call] obtain t where
    t: "trace w' = trace w @ t"
     "True \<longrightarrow> entries w' = entries w \<and> (\<forall>ev\<in>set t. \<not> storage_call ev) \<and>
        (urls \<noteq> [] \<longrightarrow> attempted t \<noteq> [] \<and> hd (attempted t) = hd urls)"
    by blast
  have ne: "new_events w w' = t" using t(1) by (rule new_events_app)
  have "download (c\<lparr>storage_fault := sf\<rparr>) env (Lst urls) True (w\<lparr>entries := es\<rparr>) =
           (r, w'\<lparr>entries := es\<rparr>)"
    using redownload_storage_indep [where c = c and sf = sf and env = env and urls = urls
        and w = w and es = es] call
    by simp
  with t(2) show ?thesis by (simp add: ne)
qed

theorem redownload_bypasses_cache_witness:
  "first_match [''http://c/f''] (entries (warm_world 5)) = Some old_entry \<and>
   \<not> expired mirrors_cache old_entry (warm_world 5) \<and>
   fst (download mirrors_cache mirrors_env (Lst [''http://c/f'']) True (warm_world 5)) =
     Inr ''/cache/f.0'' \<and>
   entries (snd (download mirrors_cache mirrors_env (Lst [''http://c/f'']) True
     (warm_world 5))) = [old_entry] \<and>
   trace (snd (download mirrors_cache mirrors_env (Lst [''http://c/f'']) True
     (warm_world 5))) =
     [Urlopen ''http://c/f'', Downloader_download ''http://c/f'' ''/cache/f.0'',
      Hash_file ''/cache/f.0''] \<and>
   fst (download locked_cache mirrors_env (Lst [''http://c/f'']) True
     ((warm_world 5)\<lparr>entries := []\<rparr>)) = Inr ''/cache/f.0''"
proof -
  let ?call = "download mirrors_cache mirrors_env (Lst [''http://c/f'']) True (warm_world 5)"
  have call: "?call = (fst ?call, snd ?call)" by simp
  show ?thesis
    using redownload_bypasses_cache [OF call,
        where sf = "storage_fault locked_cache" and es = "[]"]
    by (simp add: method_defs locked_cache_def example_defs)
qed

subsection \<open>The path returned\<close>

text \<open>
  C6, as the claim states it, fails on a cache hit: the path of the entry is returned
  without a look at the file system. Here the storage provider holds an unexpired record
  for \<open>/cache/f\<close> and the cache directory is empty: the call returns \<open>/cache/f\<close>, the
  query is the only call it made, and no file exists at that path.
\<close>

theorem hit_returns_missing_file:
  "\<not> expired mirrors_cache old_entry orphan_world \<and>
   fst (download mirrors_cache mirrors_env (Lst [''http://c/f'']) False orphan_world) =
     Inr ''/cache/f'' \<and>
   trace (snd (download mirrors_cache mirrors_env (Lst [''http://c/f'']) False
     orphan_world)) = [Find_by_key Key_url ''http://c/f''] \<and>
   files (snd (download mirrors_cache mirrors_env (Lst [''http://c/f'']) False
     orphan_world)) ''/cache/f'' = None"
  by (simp add: method_defs orphan_world_def example_defs)

text \<open>
  C6, amended. A call of \<open>download\<close> that returns a path returns it in one of two ways.
  Either the path comes from a download of this call: then this call ran \<open>hash_file\<close> on
  it, after the downloader, and a file exists at the path when the call returns. Or the
  call is without \<open>redownload\<close> and the path is the \<open>file_path\<close> of an unexpired record
  stored under one of the URLs: then the call made queries to the storage provider and
  nothing else, the files are as they were, and nothing was checked about the file.
\<close>

theorem returned_path_checked:
  assumes call: "download c env (Lst urls) rd w = (Inr p, w')"
  shows "(Hash_file p \<in> set (new_events w w') \<and> (\<exists>b. files w' p = Some b) \<and>
          attempted (new_events w w') \<noteq> []) \<or>
         (\<not> rd \<and> files w' = files w \<and>
          (\<forall>ev\<in>set (new_events w w'). \<exists>u. ev = Find_by_key Key_url u) \<and>
          (\<exists>d\<in>set (entries w). url d \<in> set urls \<and> \<not> expired c d w \<and> p = file_path d))"
proof -
  from download_effect [OF call] obtain t where
    tr: "trace w' = trace w @ t" and
    d2: "\<forall>q. (Inr p :: exn + path) = Inr q \<longrightarrow>
      (\<exists>pre u post b. urls = pre @ u # post \<and> attempted t = pre @ [u] \<and>
           length (warned t) = length pre \<and> Hash_file q \<in> set t \<and>
           files w' q = Some b \<and>
           (\<not> rd \<longrightarrow> (\<exists>es. set es \<subseteq> set (entries w) \<and>
              entries w' = es @ [\<lparr>file_hash = digest env b, file_path = q, url = u, time = clock w'\<rparr>]) \<and>
              Store \<lparr>file_hash = digest env b, file_path = q, url = u, time = clock w'\<rparr> \<in> set t)) \<or>
      (\<not> rd \<and> attempted t = [] \<and> files w' = files w \<and> entries w' = entries w \<and>
        (\<forall>ev\<in>set t. \<exists>u. ev = Find_by_key Key_url u) \<and>
        (\<exists>d\<in>set (entries w). url d \<in> set urls \<and> \<not> expired c d w \<and> q = file_path d))"
    by blast
  have ne: "new_events w w' = t" using tr by (rule new_events_app)
  from d2 show ?thesis unfolding ne by auto
qed

theorem returned_path_checked_witness:
  "download mirrors_cache mirrors_env (Lst [''http://b/f'', ''http://c/f'']) False
     cold_world =
     (Inr ''/cache/f'',
      snd (download mirrors_cache mirrors_env (Lst [''http://b/f'', ''http://c/f'']) False
        cold_world)) \<and>
   Hash_file ''/cache/f'' \<in> set (new_events cold_world
     (snd (download mirrors_cache mirrors_env (Lst [''http://b/f'', ''http://c/f'']) False
        cold_world))) \<and>
   files (snd (download mirrors_cache mirrors_env (Lst [''http://b/f'', ''http://c/f''])
     False cold_world)) ''/cache/f'' = Some ''data''"
proof -
  let ?call = "download mirrors_cache mirrors_env (Lst [''http://b/f'', ''http://c/f''])
    False cold_world"
  have call: "?call = (Inr ''/cache/f'', snd ?call)"
    by (simp add: method_defs cold_world_def example_defs)
  show ?thesis
    using returned_path_checked [OF call] call
    by (simp add: method_defs cold_world_def example_defs)
qed

subsection \<open>Lookup by hash\<close>

text \<open>
  C7. \<open>get_by_hash\<close> passes the query on to \<open>find_by_key\<close> of the storage provider with
  the key \<open>file_hash\<close>. The call adds that one query to the trace and changes nothing
  else: no record and no file is deleted, nothing is downloaded. When the storage provider
  answers, the answer is the first record with that hash, or nothing when no record has
  it, whatever the expiry of the cache and the time on the clock.
\<close>

theorem get_by_hash_pass_through:
  "get_by_hash c h w = find_by_key c Key_file_hash h w \<and>
   snd (get_by_hash c h w) = w\<lparr>trace := trace w @ [Find_by_key Key_file_hash h]\<rparr> \<and>
   (storage_fault c (Find_by_key Key_file_hash h) = None \<longrightarrow>
      fst (get_by_hash (c\<lparr>expiry := x\<rparr>) h (w\<lparr>clock := t\<rparr>)) =
        Inr (find (\<lambda>d. file_hash d = h) (entries w)))"
  by (simp add: get_by_hash_def find_by_key_def log_def split: option.splits)

theorem get_by_hash_pass_through_witness:
  "storage_fault mirrors_cache (Find_by_key Key_file_hash ''sha-old'') = None \<and>
   fst (get_by_hash (mirrors_cache\<lparr>expiry := Some 10\<rparr>) ''sha-old''
          ((warm_world 0)\<lparr>clock := 1000\<rparr>)) = Inr (Some old_entry) \<and>
   fst (get_by_hash (mirrors_cache\<lparr>expiry := Some 10\<rparr>) ''sha-new''
          ((warm_world 0)\<lparr>clock := 1000\<rparr>)) = Inr None"
  using get_by_hash_pass_through [of mirrors_cache "''sha-old''" "warm_world 0" "Some 10" 1000]
    get_by_hash_pass_through [of mirrors_cache "''sha-new''" "warm_world 0" "Some 10" 1000]
  by (simp add: mirrors_cache_def warm_world_def old_entry_def)

subsection \<open>Calling twice\<close>

text \<open>
  C8, as the claim states it, fails when the first of the two calls is itself answered
  from the cache: both calls return the same path, and no download occurs in either. Here
  the cache holds an unexpired entry for the URL; after the two calls the trace holds the
  two queries and no call that reaches the network.
\<close>

theorem warm_repeat_no_download:
  "fst (download mirrors_cache mirrors_env (Lst [''http://c/f'']) False (warm_world 5)) =
     Inr ''/cache/f'' \<and>
   fst (download mirrors_cache mirrors_env (Lst [''http://c/f'']) False
     (snd (download mirrors_cache mirrors_env (Lst [''http://c/f'']) False (warm_world 5)))) =
     Inr ''/cache/f'' \<and>
   trace (snd (download mirrors_cache mirrors_env (Lst [''http://c/f'']) False
     (snd (download mirrors_cache mirrors_env (Lst [''http://c/f'']) False (warm_world 5))))) =
     [Find_by_key Key_url ''http://c/f'', Find_by_key Key_url ''http://c/f''] \<and>
   completed (trace (snd (download mirrors_cache mirrors_env (Lst [''http://c/f'']) False
     (snd (download mirrors_cache mirrors_env (Lst [''http://c/f'']) False
       (warm_world 5)))))) = 0"
  by (simp add: method_defs example_defs completed_def)

text \<open>
  C8, amended. Take a call \<open>download(urls)\<close> without \<open>redownload\<close> that returns a path,
  from a state in which the storage provider holds at most one record under the URLs of
  the list, and a second call with the same list made later: the clock and the files may
  have changed in between, the records have not, and the entry the lookup now finds has
  not expired. The storage provider raises no fault. Then the second call returns the
  same path, makes no call that reaches the network (whatever the network would now
  deliver) and changes neither records nor files. Across the two calls exactly one
  download attempt delivers, unless the first call was itself answered from the cache:
  then none does.
\<close>

theorem repeated_download:
  assumes nofault: "\<forall>ev. storage_fault c ev = None"
    and first: "download c env (Lst urls) False w = (Inr p, w1)"
    and single: "length (filter (\<lambda>d. url d \<in> set urls) (entries w)) \<le> 1"
    and noexp: "\<forall>d. first_match urls (entries w1) = Some d \<longrightarrow>
                  \<not> expired c d (w1\<lparr>files := fs, clock := t\<rparr>)"
  shows "\<exists>w2. download c env2 (Lst urls) False (w1\<lparr>files := fs, clock := t\<rparr>) = (Inr p, w2) \<and>
           filter network_call (new_events (w1\<lparr>files := fs, clock := t\<rparr>) w2) = [] \<and>
           entries w2 = entries w1 \<and> files w2 = fs \<and>
           completed (new_events w w1 @ new_events (w1\<lparr>files := fs, clock := t\<rparr>) w2) =
             (case first_match urls (entries w) of
                None \<Rightarrow> 1
              | Some d \<Rightarrow> if expired c d w then 1 else 0)"
proof -
  let ?v = "w1\<lparr>files := fs, clock := t\<rparr>"
  let ?t2 = "map (Find_by_key Key_url) (queried urls (entries w1))"
  let ?w2 = "?v\<lparr>trace := trace ?v @ ?t2\<rparr>"
  have nf: "\<forall>u\<in>set urls. storage_fault c (Find_by_key Key_url u) = None"
    using nofault by simp
  have ne2: "new_events ?v ?w2 = ?t2" by (rule new_events_app) simp
  have second: "download c env2 (Lst urls) False ?v = (Inr (file_path d), ?w2)"
    if "first_match urls (entries w1) = Some d" for d
  proof -
    from that have m: "first_match urls (entries ?v) = Some d" by simp
    from that noexp have "\<not> expired c d ?v" by blast
    with nf m have "download c env2 (Lst urls) False ?v =
        (Inr (file_path d),
         ?v\<lparr>trace := trace ?v @ map (Find_by_key Key_url) (queried urls (entries ?v))\<rparr>)"
      by (rule download_hit)
    then show ?thesis by simp
  qed
  have fetched: "download c env2 (Lst urls) False ?v = (Inr p, ?w2) \<and>
      completed (new_events w w1 @ new_events ?v ?w2) = 1"
    if fr: "download_fresh c env urls False w0 = (Inr p, w1)"
      and cold: "first_match urls (entries w0) = None"
      and tq: "trace w0 = trace w @ tq" "attempted tq = []" "warned tq = []"
    for w0 tq
  proof -
    from download_fresh_effect [OF fr] obtain tf where
      tf: "trace w1 = trace w0 @ tf"
        "\<forall>q. (Inr p :: exn + path) = Inr q \<longrightarrow>
          (\<exists>pre u post b. urls = pre @ u # post \<and> attempted tf = pre @ [u] \<and>
             length (warned tf) = length pre \<and> Hash_file q \<in> set tf \<and>
             files w1 q = Some b \<and>
             (\<not> False \<longrightarrow> entries w1 = entries w0 @
                  [\<lparr>file_hash = digest env b, file_path = q, url = u, time = clock w1\<rparr>] \<and>
                Store \<lparr>file_hash = digest env b, file_path = q, url = u, time = clock w1\<rparr>
                  \<in> set tf))"
      by blast
    from tf(2) obtain pre u post b where
      s: "urls = pre @ u # post" "attempted tf = pre @ [u]" "length (warned tf) = length pre"
        "entries w1 = entries w0 @
            [\<lparr>file_hash = digest env b, file_path = p, url = u, time = clock w1\<rparr>]"
      by auto
    let ?e = "\<lparr>file_hash = digest env b, file_path = p, url = u, time = clock w1\<rparr>"
    have "url ?e \<in> set urls" using s(1) by simp
    from first_match_cold_append [OF cold this]
    have "first_match urls (entries w1) = Some ?e" using s(4) by simp
    from second [OF this]
    have call2: "download c env2 (Lst urls) False ?v = (Inr p, ?w2)" by simp
    have "trace w1 = trace w @ (tq @ tf)" using tf(1) tq(1) by simp
    then have ne1: "new_events w w1 = tq @ tf" by (rule new_events_app)
    have "completed (new_events w w1 @ new_events ?v ?w2) = 1"
      unfolding ne1 ne2 using s(2,3) tq(2,3) by (simp add: completed_def)
    with call2 show ?thesis by (intro conjI)
  qed
  have main: "download c env2 (Lst urls) False ?v = (Inr p, ?w2) \<and>
      completed (new_events w w1 @ new_events ?v ?w2) =
             (case first_match urls (entries w) of
                None \<Rightarrow> 1
              | Some d \<Rightarrow> if expired c d w then 1 else 0)"
  proof (cases "first_match urls (entries w)")
    case None
    let ?tq = "map (Find_by_key Key_url) (queried urls (entries w))"
    let ?w0 = "w\<lparr>trace := trace w @ ?tq\<rparr>"
    from download_miss [OF nf None] first
    have fr: "download_fresh c env urls False ?w0 = (Inr p, w1)" by simp
    have "first_match urls (entries ?w0) = None" using None by simp
    from fetched [OF fr this, of ?tq] show ?thesis using None by simp
  next
    case (Some d)
    show ?thesis
    proof (cases "expired c d w")
      case False
      let ?tq = "map (Find_by_key Key_url) (queried urls (entries w))"
      let ?w0 = "w\<lparr>trace := trace w @ ?tq\<rparr>"
      from download_hit [OF nf Some False, of env] first
      have pw: "p = file_path d" "w1 = ?w0" by simp_all
      have "first_match urls (entries w1) = Some d" using Some pw by simp
      from second [OF this]
      have call2: "download c env2 (Lst urls) False ?v = (Inr p, ?w2)" using pw by simp
      have "trace w1 = trace w @ ?tq" using pw by simp
      then have ne1: "new_events w w1 = ?tq" by (rule new_events_app)
      have "completed (new_events w w1 @ new_events ?v ?w2) = 0"
        unfolding ne1 ne2 by (simp add: completed_def)
      with call2 Some False show ?thesis by simp
    next
      case True
      let ?tq = "map (Find_by_key Key_url) (queried urls (entries w)) @
                  [Os_remove (file_path d), Delete_by_key Key_url (url d)]"
      let ?w3 = "w\<lparr>files := (files w)(file_path d := None),
                entries := filter (\<lambda>e. url e \<noteq> url d) (entries w),
                trace := trace w @ ?tq\<rparr>"
      have present: "files w (file_path d) \<noteq> None"
        using nf Some True first by (rule stale_success_present)
      have nodel: "storage_fault c (Delete_by_key Key_url (url d)) = None"
        using nofault by simp
      from download_stale [OF nf nodel Some True present, of env] first
      have fr: "download_fresh c env urls False ?w3 = (Inr p, w1)" by simp
      have cold: "first_match urls (entries ?w3) = None"
        using matches_single [OF single Some] by simp
      from fetched [OF fr cold, of ?tq] show ?thesis using Some True by simp
    qed
  qed
  show ?thesis
  proof (intro exI [of _ ?w2] conjI)
    show "download c env2 (Lst urls) False ?v = (Inr p, ?w2)" using main by simp
    show "filter network_call (new_events ?v ?w2) = []" unfolding ne2 by simp
    show "entries ?w2 = entries w1" by simp
    show "files ?w2 = fs" by simp
    show "completed (new_events w w1 @ new_events ?v ?w2) =
             (case first_match urls (entries w) of
                None \<Rightarrow> 1
              | Some d \<Rightarrow> if expired c d w then 1 else 0)"
      using main by simp
  qed
qed

theorem repeated_download_witness:
  "first_match [''http://a/f'', ''http://b/f'', ''http://c/f''] (entries (warm_world 100)) =
     Some old_entry \<and>
   expired mirrors_cache old_entry (warm_world 100) \<and>
   length (filter (\<lambda>d. url d \<in> set [''http://a/f'', ''http://b/f'', ''http://c/f''])
     (entries (warm_world 100))) = 1 \<and>
   fst (download mirrors_cache mirrors_env
     (Lst [''http://a/f'', ''http://b/f'', ''http://c/f'']) False (warm_world 100)) =
     Inr ''/cache/f'' \<and>
   fst (download mirrors_cache mirrors_env
     (Lst [''http://a/f'', ''http://b/f'', ''http://c/f'']) False
     ((snd (download mirrors_cache mirrors_env
         (Lst [''http://a/f'', ''http://b/f'', ''http://c/f'']) False (warm_world 100)))
      \<lparr>files := Map.empty, clock := 110\<rparr>)) = Inr ''/cache/f'' \<and>
   completed (trace (snd (download mirrors_cache mirrors_env
     (Lst [''http://a/f'', ''http://b/f'', ''http://c/f'']) False
     ((snd (download mirrors_cache mirrors_env
         (Lst [''http://a/f'', ''http://b/f'', ''http://c/f'']) False (warm_world 100)))
      \<lparr>files := Map.empty, clock := 110\<rparr>)))) = 1"
proof -
  let ?urls = "[''http://a/f'', ''http://b/f'', ''http://c/f'']"
  let ?first = "download mirrors_cache mirrors_env (Lst ?urls) False (warm_world 100)"
  have nofault: "\<forall>ev. storage_fault mirrors_cache ev = None"
    by (simp add: mirrors_cache_def)
  have first: "?first = (Inr ''/cache/f'', snd ?first)"
    by (simp add: method_defs example_defs)
  have single: "length (filter (\<lambda>d. url d \<in> set ?urls) (entries (warm_world 100))) \<le> 1"
    by (simp add: example_defs)
  have noexp: "\<forall>d. first_match ?urls (entries (snd ?first)) = Some d \<longrightarrow>
      \<not> expired mirrors_cache d ((snd ?first)\<lparr>files := Map.empty, clock := 110\<rparr>)"
    by (simp add: method_defs example_defs)
  show ?thesis
    using repeated_download [OF nofault first single noexp, of mirrors_env]
    by (simp add: method_defs example_defs completed_def)
qed

subsection \<open>The argument of download\<close>

text \<open>
  C10. A call of \<open>download\<close> with a bare string \<open>s\<close> is the call with the one-element
  list \<open>[s]\<close>, whatever the flag \<open>redownload\<close> and the state of the world: the string is
  wrapped before the cache is consulted or anything is downloaded.
\<close>

theorem download_str_is_singleton:
  "download c env (Str s) r w = download c env (Lst [s]) r w"
  by (simp add: download_def)

end
